theory Spec2Isabelle
  imports Complex_Main "HOL-Library.Word"
begin

section \<open>Data model\<close>

text \<open>
  The module \<^verbatim>\<open>cmb_likelihood_utils.py\<close> works on NumPy arrays of double precision
  numbers. A one-dimensional array is a list of reals, a matrix is the list of its rows,
  and the Legendre tensor of shape \<open>(ndata, ndata, lmax + 1)\<close> is a list of rows of
  lists indexed by the multipole. Finite floating point numbers are idealised as real
  numbers: every statement below is about the arithmetic the code writes down, not about
  rounding. Where the type of an argument decides what the code does, the model keeps
  the type: an integer array is a list of 64-bit words, and the values that NumPy's
  float64 division by zero produces are kept as values.

  The exceptions the code can raise are values of the type \<open>error\<close>; a function that
  can raise returns \<open>error + 'a\<close> with \<open>Inl\<close> for the exception.
\<close>

datatype error = ValueError | IndexError | ZeroDivisionError | LinAlgError

type_synonym vec = "real list"
type_synonym mat = "real list list"
type_synonym tensor = "real list list list"

definition is_mat :: "nat \<Rightarrow> nat \<Rightarrow> mat \<Rightarrow> bool" where
  "is_mat r c M = (length M = r \<and> list_all (\<lambda>row. length row = c) M)"

definition symmetric :: "mat \<Rightarrow> bool" where
  "symmetric M =
     (is_mat (length M) (length M) M \<and>
      list_all (\<lambda>i. list_all (\<lambda>j. M ! i ! j = M ! j ! i) [0..<length M]) [0..<length M])"

section \<open>Noise covariance\<close>

text \<open>\<^verbatim>\<open>numpy.eye(N, M)\<close>: ones on the main diagonal, zeros elsewhere.\<close>

definition eye :: "nat \<Rightarrow> nat \<Rightarrow> mat" where
  "eye N M = map (\<lambda>i. map (\<lambda>j. if i = j then 1 else 0) [0..<M]) [0..<N]"

text \<open>
  \<^verbatim>\<open>rms = array(rms)\<close>: a sequence of Python floats becomes an array of dtype float64,
  a sequence of Python ints that fit 64 bits becomes an array of dtype int64 (NumPy's
  default integer type). The model takes the array after this conversion. Sequences with
  larger integers get other dtypes and are outside this type.
\<close>

datatype rms_array = Int64 "64 word list" | Float64 "real list"

fun rms_len :: "rms_array \<Rightarrow> nat" where
  "rms_len (Int64 ws) = length ws"
| "rms_len (Float64 xs) = length xs"

text \<open>
  \<^verbatim>\<open>rms ** 2\<close> is computed in the dtype of the array: an int64 square wraps around
  modulo \<open>2^64\<close> without an error. The product with the float64 matrix \<open>eye\<close> then
  converts the wrapped, signed value to a float.
\<close>

fun rms_squared :: "rms_array \<Rightarrow> vec" where
  "rms_squared (Int64 ws) = map (\<lambda>w. real_of_int (sint (w ^ 2))) ws"
| "rms_squared (Float64 xs) = map (\<lambda>s. s ^ 2) xs"

text \<open>
  \<^verbatim>\<open>N_cov = eye(len(rms), len(rms)) * rms ** 2\<close>: the vector \<open>rms ** 2\<close> is broadcast
  along the last axis, so that entry \<open>(i, j)\<close> is \<open>eye[i, j] * (rms ** 2)[j]\<close>.
\<close>

definition get_noise_cov :: "rms_array \<Rightarrow> mat" where
  "get_noise_cov rms =
     map (\<lambda>row. map2 (*) row (rms_squared rms)) (eye (rms_len rms) (rms_len rms))"

text \<open>
  The standard deviations that the array holds, as numbers, and the condition that the
  squares of an integer array fit the signed 64-bit range.
\<close>

fun rms_values :: "rms_array \<Rightarrow> vec" where
  "rms_values (Int64 ws) = map (\<lambda>w. real_of_int (sint w)) ws"
| "rms_values (Float64 xs) = xs"

fun squares_fit :: "rms_array \<Rightarrow> bool" where
  "squares_fit (Int64 ws) = list_all (\<lambda>w. (sint w) ^ 2 < 2 ^ 63) ws"
| "squares_fit (Float64 xs) = True"

section \<open>Model power spectrum\<close>

text \<open>
  The loop \<^verbatim>\<open>for l in range(2, lmax): C_ell[l + 1] = (2 * l + n - 1) / (2 * l + 5 - n) * C_ell[l]\<close>
  runs over the list of the values of \<open>l\<close> in increasing order and updates the array in
  place; the indices \<open>l\<close> and \<open>l + 1\<close> stay inside the array of length \<open>lmax + 1\<close>.
  The quotient is taken first, between scalars of the type of \<open>n\<close>, and the code does
  not test the denominator. What a zero denominator does is decided by that type, so
  the loop has two models.

  For \<open>n\<close> a Python int or float (the parameter file gives its bounds as Python
  floats), \<open>/\<close> is Python's true division, which raises ZeroDivisionError on a zero
  divisor:
\<close>

fun C_ell_loop :: "real \<Rightarrow> nat list \<Rightarrow> vec \<Rightarrow> error + vec" where
  "C_ell_loop n [] C_ell = Inr C_ell"
| "C_ell_loop n (l # ls) C_ell =
     (if 2 * real l + 5 - n = 0 then Inl ZeroDivisionError
      else C_ell_loop n ls
             (C_ell[l + 1 := (2 * real l + n - 1) / (2 * real l + 5 - n) * C_ell ! l]))"

text \<open>
  \<^verbatim>\<open>zeros(lmax + 1)\<close> raises ValueError for a negative length, and the assignment
  \<^verbatim>\<open>C_ell[2] = ...\<close> raises IndexError when the array has fewer than three entries.
  \<open>get_C_ell_model\<close> is the function for \<open>n\<close> a Python int or float,
  \<open>get_C_ell_model_np\<close> below the same function for \<open>n\<close> a \<open>numpy.float64\<close>.
\<close>

definition get_C_ell_model :: "real \<Rightarrow> real \<Rightarrow> int \<Rightarrow> error + vec" where
  "get_C_ell_model Q n lmax =
     (if lmax + 1 < 0 then Inl ValueError
      else let C_ell = replicate (nat (lmax + 1)) 0 in
        if length C_ell \<le> 2 then Inl IndexError
        else C_ell_loop n [2..<nat lmax] (C_ell[2 := 4 * pi / 5 * Q ^ 2]))"

text \<open>
  For \<open>n\<close> a \<open>numpy.float64\<close> (an entry of a grid made by \<open>numpy.linspace\<close>), \<open>/\<close> is
  NumPy's division: a zero divisor gives an infinity with the sign of the dividend, or
  NaN for \<open>0 / 0\<close>, with a warning and no exception. The array then holds float64
  values that are finite numbers, infinities or NaN, and products follow IEEE 754.
\<close>

datatype npfloat = Fin real | PInf | NInf | NaN

fun is_finite :: "npfloat \<Rightarrow> bool" where
  "is_finite (Fin a) = True"
| "is_finite _ = False"

fun np_neg :: "npfloat \<Rightarrow> npfloat" where
  "np_neg (Fin a) = Fin (- a)"
| "np_neg PInf = NInf"
| "np_neg NInf = PInf"
| "np_neg NaN = NaN"

definition np_div :: "real \<Rightarrow> real \<Rightarrow> npfloat" where
  "np_div a b =
     (if b \<noteq> 0 then Fin (a / b)
      else if a = 0 then NaN else if 0 < a then PInf else NInf)"

fun np_mul :: "npfloat \<Rightarrow> npfloat \<Rightarrow> npfloat" where
  "np_mul (Fin a) (Fin b) = Fin (a * b)"
| "np_mul NaN y = NaN"
| "np_mul x NaN = NaN"
| "np_mul (Fin a) y = (if a = 0 then NaN else if 0 < a then y else np_neg y)"
| "np_mul x (Fin b) = (if b = 0 then NaN else if 0 < b then x else np_neg x)"
| "np_mul PInf y = y"
| "np_mul NInf y = np_neg y"

fun C_ell_loop_np :: "real \<Rightarrow> nat list \<Rightarrow> npfloat list \<Rightarrow> npfloat list" where
  "C_ell_loop_np n [] C_ell = C_ell"
| "C_ell_loop_np n (l # ls) C_ell =
     C_ell_loop_np n ls
       (C_ell[l + 1 := np_mul (np_div (2 * real l + n - 1) (2 * real l + 5 - n)) (C_ell ! l)])"

definition get_C_ell_model_np :: "real \<Rightarrow> real \<Rightarrow> int \<Rightarrow> error + npfloat list" where
  "get_C_ell_model_np Q n lmax =
     (if lmax + 1 < 0 then Inl ValueError
      else let C_ell = replicate (nat (lmax + 1)) (Fin 0) in
        if length C_ell \<le> 2 then Inl IndexError
        else Inr (C_ell_loop_np n [2..<nat lmax] (C_ell[2 := Fin (4 * pi / 5 * Q ^ 2)])))"

section \<open>Array operations of NumPy used by the module\<close>

text \<open>\<^verbatim>\<open>numpy.ones((N, M))\<close> and \<^verbatim>\<open>numpy.outer(a, b)\<close>.\<close>

definition ones :: "nat \<Rightarrow> nat \<Rightarrow> mat" where
  "ones N M = replicate N (replicate M 1)"


text \<open>The inner product of two one-dimensional arrays, \<^verbatim>\<open>a.dot(b)\<close>.\<close>

definition dot :: "vec \<Rightarrow> vec \<Rightarrow> real" where
  "dot a b = sum_list (map2 (*) a b)"

text \<open>
  Elementwise multiplication of one-dimensional arrays with NumPy's broadcasting rule:
  equal lengths multiply entry by entry, an array of length one is stretched over the
  other, and any other pair of lengths raises ValueError.
\<close>

definition bmul :: "vec \<Rightarrow> vec \<Rightarrow> error + vec" where
  "bmul a b =
     (if length a = length b then Inr (map2 (*) a b)
      else if length a = 1 then Inr (map (\<lambda>v. a ! 0 * v) b)
      else if length b = 1 then Inr (map (\<lambda>u. u * b ! 0) a)
      else Inl ValueError)"

text \<open>
  Elementwise addition of two square matrices (every matrix the module adds is an
  \<open>N \<times> N\<close> outer product or \<open>ones((N, N))\<close>) under the same rule: a \<open>1 \<times> 1\<close>
  operand is stretched over the other one.
\<close>

definition badd :: "mat \<Rightarrow> mat \<Rightarrow> error + mat" where
  "badd A B =
     (if length A = length B then Inr (map2 (map2 (+)) A B)
      else if length A = 1 then Inr (map (map (\<lambda>v. A ! 0 ! 0 + v)) B)
      else if length B = 1 then Inr (map (map (\<lambda>u. u + B ! 0 ! 0)) A)
      else Inl ValueError)"

text \<open>Running a computation that can raise over a list: the first error wins.\<close>

fun map_err :: "('a \<Rightarrow> error + 'b) \<Rightarrow> 'a list \<Rightarrow> error + 'b list" where
  "map_err f [] = Inr []"
| "map_err f (x # xs) =
     (case f x of Inl e \<Rightarrow> Inl e
      | Inr y \<Rightarrow> (case map_err f xs of Inl e \<Rightarrow> Inl e | Inr ys \<Rightarrow> Inr (y # ys)))"

text \<open>
  \<^verbatim>\<open>numpy.linspace(start, stop, num)\<close>: \<open>num\<close> evenly spaced samples over the closed
  interval from \<open>start\<close> to \<open>stop\<close>; a single sample is \<open>start\<close>.
\<close>

definition linspace :: "real \<Rightarrow> real \<Rightarrow> nat \<Rightarrow> vec" where
  "linspace start stop num =
     (if num = 1 then [start]
      else map (\<lambda>k. start + real k * ((stop - start) / real (num - 1))) [0..<num])"

section \<open>Foreground covariance\<close>




section \<open>Legendre tensor\<close>

text \<open>
  Modelled from the spec: \<^verbatim>\<open>scipy.special.legendre(l)\<close> is the library's Legendre
  polynomial of degree \<open>l\<close>, a callable that is applied entry by entry to an array. It
  is given here by the three-term recurrence \<open>P 0 = 1\<close>, \<open>P 1 = x\<close>,
  \<open>(l + 1) P (l + 1) = (2 l + 1) x P l - l P (l - 1)\<close>.
\<close>

fun legendre :: "nat \<Rightarrow> real \<Rightarrow> real" where
  "legendre 0 x = 1"
| "legendre (Suc 0) x = x"
| "legendre (Suc (Suc l)) x =
     ((2 * real (Suc l) + 1) * x * legendre (Suc l) x - real (Suc l) * legendre l x)
       / (real (Suc l) + 1)"

text \<open>\<^verbatim>\<open>for l in range(lmax + 1): leg.append(legendre(l))\<close>\<close>

definition get_legendre_coeff :: "int \<Rightarrow> (real \<Rightarrow> real) list" where
  "get_legendre_coeff lmax = map legendre [0..<nat (lmax + 1)]"

text \<open>\<^verbatim>\<open>p_ell_ij[:, :, l] = M\<close>: entry \<open>l\<close> of every cell is overwritten.\<close>

definition set_slice :: "tensor \<Rightarrow> nat \<Rightarrow> mat \<Rightarrow> tensor" where
  "set_slice p l M = map2 (\<lambda>prow mrow. map2 (\<lambda>cell v. cell[l := v]) prow mrow) p M"

fun legendre_loop :: "(real \<Rightarrow> real) list \<Rightarrow> mat \<Rightarrow> nat list \<Rightarrow> tensor \<Rightarrow> tensor" where
  "legendre_loop leg costheta [] p_ell_ij = p_ell_ij"
| "legendre_loop leg costheta (l # ls) p_ell_ij =
     legendre_loop leg costheta ls (set_slice p_ell_ij l (map (map (leg ! l)) costheta))"

text \<open>
  \<^verbatim>\<open>vstack([x, y, z])\<close> raises ValueError unless the three sequences have one length;
  row \<open>i\<close> of \<open>pos_vec\<close> is \<open>[x[i], y[i], z[i]]\<close>, and entry \<open>(i, j)\<close> of
  \<^verbatim>\<open>dot(pos_vec, pos_vec.T)\<close> is the inner product of rows \<open>i\<close> and \<open>j\<close>.
  \<^verbatim>\<open>zeros((ndata, ndata, lmax + 1))\<close> raises ValueError for a negative dimension.
\<close>

definition get_legendre_mat :: "int \<Rightarrow> vec \<Rightarrow> vec \<Rightarrow> vec \<Rightarrow> error + tensor" where
  "get_legendre_mat lmax x y z =
     (let leg = get_legendre_coeff lmax in
      if \<not> (length x = length y \<and> length y = length z) then Inl ValueError
      else
        let pos_vec = map (\<lambda>i. [x ! i, y ! i, z ! i]) [0..<length x];
            costheta = map (\<lambda>p. map (\<lambda>q. dot p q) pos_vec) pos_vec;
            ndata = length x
        in if lmax + 1 < 0 then Inl ValueError
           else Inr (legendre_loop leg costheta [0..<nat (lmax + 1)]
                       (replicate ndata (replicate ndata (replicate (nat (lmax + 1)) 0)))))"

text \<open>The matrix of pairwise inner products of the position vectors, in closed form.\<close>

definition costheta_of :: "vec \<Rightarrow> vec \<Rightarrow> vec \<Rightarrow> mat" where
  "costheta_of x y z =
     map (\<lambda>i. map (\<lambda>j. x ! i * x ! j + y ! i * y ! j + z ! i * z ! j) [0..<length x])
       [0..<length x]"

text \<open>The slice \<^verbatim>\<open>p_ell_ij[:, :, l]\<close>.\<close>

definition slice :: "tensor \<Rightarrow> nat \<Rightarrow> mat" where
  "slice p l = map (map (\<lambda>cell. cell ! l)) p"

section \<open>Signal covariance\<close>

text \<open>
  \<^verbatim>\<open>Sum((2 * linspace(0, lmax + 1, lmax + 1) - 1) * beam ** 2 * pixwin ** 2 * C_ell * p_ell_ij, 2)\<close>
  divided by \<open>4 pi\<close>, with \<open>lmax = len(C_ell) - 1\<close>. The products are taken from left to
  right; the last one stretches the vector of weights over the last axis of the tensor.
\<close>

definition get_signal_cov :: "vec \<Rightarrow> vec \<Rightarrow> vec \<Rightarrow> tensor \<Rightarrow> error + mat" where
  "get_signal_cov C_ell beam pixwin p_ell_ij =
     (let lmax = int (length C_ell) - 1;
          ell = map (\<lambda>v. 2 * v - 1) (linspace 0 (of_int (lmax + 1)) (nat (lmax + 1)))
      in case bmul ell (map (\<lambda>b. b ^ 2) beam) of Inl e \<Rightarrow> Inl e
         | Inr w1 \<Rightarrow>
             (case bmul w1 (map (\<lambda>p. p ^ 2) pixwin) of Inl e \<Rightarrow> Inl e
              | Inr w2 \<Rightarrow>
                  (case bmul w2 C_ell of Inl e \<Rightarrow> Inl e
                   | Inr w3 \<Rightarrow>
                       (case map_err (map_err (bmul w3)) p_ell_ij of Inl e \<Rightarrow> Inl e
                        | Inr terms \<Rightarrow>
                            Inr (map (map (\<lambda>s. s / (4 * pi))) (map (map sum_list) terms))))))"

text \<open>
  The formula of the specification, for comparison:
  \<open>S[i, j] = 1 / (4 pi) * (\<Sum> l = 0 .. lmax. (2 l + 1) * beam[l]^2 * pixwin[l]^2 * C[l] * P[i, j, l])\<close>.
\<close>

definition signal_cov_spec :: "vec \<Rightarrow> vec \<Rightarrow> vec \<Rightarrow> tensor \<Rightarrow> mat" where
  "signal_cov_spec C_ell beam pixwin p_ell_ij =
     map (map (\<lambda>cell. 1 / (4 * pi) *
        (\<Sum>l\<leftarrow>[0..<length C_ell].
            (2 * real l + 1) * beam ! l ^ 2 * pixwin ! l ^ 2 * C_ell ! l * cell ! l))) p_ell_ij"

section \<open>Likelihood\<close>

text \<open>
  \<^verbatim>\<open>scipy.linalg.cholesky(a)\<close> is called with its defaults, \<open>lower = False\<close>: the
  library reads the upper triangle of \<open>a\<close> and returns the upper triangular factor \<open>U\<close>
  with \<open>a = U\<^sup>T U\<close>, zeros below the diagonal. It raises ValueError for an array that is
  not a square matrix and LinAlgError ("not positive definite") when a pivot is not
  positive. The factorisation is written here in its recursive form: the first row of
  \<open>U\<close> is the first row of \<open>a\<close> divided by the root of the pivot, and the rest of \<open>U\<close>
  is the factor of the remaining block minus the outer product of that row with itself.
  In exact arithmetic every ordering of the Cholesky algorithm computes the same pivots
  and the same factor.
\<close>

definition schur :: "mat \<Rightarrow> vec \<Rightarrow> mat" where
  "schur B u = map2 (\<lambda>row ui. map2 (\<lambda>v uj. v - ui * uj) row u) B u"

function potrf :: "mat \<Rightarrow> error + mat" where
  "potrf [] = Inr []"
| "potrf ([] # rs) = Inl ValueError"
| "potrf ((a # b) # rs) =
     (if a \<le> 0 then Inl LinAlgError
      else let d = sqrt a; u = map (\<lambda>v. v / d) b
           in case potrf (schur (map tl rs) u) of Inl e \<Rightarrow> Inl e
              | Inr U \<Rightarrow> Inr ((d # u) # map (\<lambda>row. 0 # row) U))"
  by pat_completeness auto
termination
  by (relation "measure length") (auto simp: schur_def)

definition cholesky :: "mat \<Rightarrow> error + mat" where
  "cholesky a = (if \<not> is_mat (length a) (length a) a then Inl ValueError else potrf a)"

text \<open>\<^verbatim>\<open>numpy.diagonal(L)\<close> of a square matrix.\<close>

definition diagonal :: "mat \<Rightarrow> vec" where
  "diagonal M = map (\<lambda>i. M ! i ! i) [0..<length M]"

text \<open>
  \<^verbatim>\<open>scipy.linalg.solve_triangular(a, b)\<close> is called with its defaults, \<open>lower = False\<close>
  and \<open>trans = 0\<close>: it solves \<open>a x = b\<close> for an upper triangular \<open>a\<close> by back
  substitution, reading the upper triangle only. It raises ValueError when \<open>a\<close> is not
  square or the lengths differ, and LinAlgError when the diagonal of \<open>a\<close> has a zero.
\<close>

fun back_subst :: "mat \<Rightarrow> vec \<Rightarrow> vec" where
  "back_subst ((a # u) # rs) (b # bs) =
     (let x = back_subst (map tl rs) bs in (b - dot u x) / a # x)"
| "back_subst _ _ = []"

definition solve_triangular :: "mat \<Rightarrow> vec \<Rightarrow> error + vec" where
  "solve_triangular a b =
     (if \<not> is_mat (length a) (length a) a \<or> length a \<noteq> length b then Inl ValueError
      else if 0 \<in> set (diagonal a) then Inl LinAlgError
      else Inr (back_subst a b))"

text \<open>
  \<^verbatim>\<open>L = cholesky(cov)\<close>, \<^verbatim>\<open>lndet = Sum(ln(diagonal(L)))\<close>,
  \<^verbatim>\<open>x = solve_triangular(L, data)\<close> and the result \<^verbatim>\<open>transpose(x).dot(x) + lndet\<close>.
\<close>

definition get_lnL :: "vec \<Rightarrow> mat \<Rightarrow> error + real" where
  "get_lnL data cov =
     (case cholesky cov of Inl e \<Rightarrow> Inl e
      | Inr L \<Rightarrow>
          let lndet = sum_list (map ln (diagonal L))
          in case solve_triangular L data of Inl e \<Rightarrow> Inl e
             | Inr x \<Rightarrow> Inr (dot x x + lndet))"

text \<open>
  The notions of the specification: the product of a matrix with a vector, the quadratic
  form \<open>x\<^sup>T C x\<close>, positive definiteness, and a diagonal matrix.
\<close>

definition mat_vec :: "mat \<Rightarrow> vec \<Rightarrow> vec" where
  "mat_vec M x = map (\<lambda>row. dot row x) M"

definition quad_form :: "mat \<Rightarrow> vec \<Rightarrow> real" where
  "quad_form M x = dot x (mat_vec M x)"

definition positive_definite :: "mat \<Rightarrow> bool" where
  "positive_definite M =
     (\<forall>x. length x = length M \<and> x \<noteq> replicate (length M) 0 \<longrightarrow> 0 < quad_form M x)"

definition diag :: "vec \<Rightarrow> mat" where
  "diag v = map (\<lambda>i. map (\<lambda>j. if i = j then v ! i else 0) [0..<length v]) [0..<length v]"

text \<open>
  The closed form of the specification for a diagonal covariance \<open>diag v\<close>:
  the sum of \<open>d[i]^2 / v[i]\<close> plus the sum of \<open>ln v[i]\<close>.
\<close>

definition lnL_diag_spec :: "vec \<Rightarrow> vec \<Rightarrow> real" where
  "lnL_diag_spec d v = sum_list (map2 (\<lambda>di vi. di ^ 2 / vi) d v) + sum_list (map ln v)"

section \<open>Properties of the model power spectrum\<close>

lemma C_ell_loop_append:
  "C_ell_loop n (xs @ ys) C =
     (case C_ell_loop n xs C of Inl e \<Rightarrow> Inl e | Inr C' \<Rightarrow> C_ell_loop n ys C')"
  by (induction xs arbitrary: C) auto

lemma C_ell_loop_fail:
  "\<exists>l\<in>set ls. 2 * real l + 5 - n = 0 \<Longrightarrow> C_ell_loop n ls C = Inl ZeroDivisionError"
  by (induction ls arbitrary: C) auto

lemma C_ell_loop_length:
  "C_ell_loop n ls C = Inr C' \<Longrightarrow> length C' = length C"
  by (induction ls arbitrary: C) (auto split: if_splits)

lemma C_ell_loop_ok:
  "\<forall>l\<in>set ls. 2 * real l + 5 - n \<noteq> 0 \<Longrightarrow> \<exists>C'. C_ell_loop n ls C = Inr C'"
  by (induction ls arbitrary: C) auto

lemma C_ell_loop_upto:
  assumes "C_ell_loop n [2..<b] C = Inr C'" "b < length C"
  shows "(\<forall>k. k \<le> 2 \<or> b < k \<longrightarrow> C' ! k = C ! k) \<and>
         (\<forall>l. 2 \<le> l \<and> l < b \<longrightarrow>
            C' ! (l + 1) = (2 * real l + n - 1) / (2 * real l + 5 - n) * C' ! l)"
  using assms
proof (induction b arbitrary: C')
  case 0
  then show ?case by simp
next
  case (Suc b)
  show ?case
  proof (cases "2 \<le> b")
    case False
    then have "[2..<Suc b] = []" by simp
    with Suc.prems show ?thesis using False by auto
  next
    case True
    then have split: "[2..<Suc b] = [2..<b] @ [b]" by simp
    from Suc.prems(1) obtain C1 where
      c1: "C_ell_loop n [2..<b] C = Inr C1" and
      st: "C_ell_loop n [b] C1 = Inr C'"
      unfolding split C_ell_loop_append by (auto split: sum.splits)
    from Suc.prems(2) have "b < length C" by simp
    from Suc.IH[OF c1 this] have
      ih1: "\<And>k. k \<le> 2 \<or> b < k \<Longrightarrow> C1 ! k = C ! k" and
      ih2: "\<And>l. 2 \<le> l \<Longrightarrow> l < b \<Longrightarrow>
              C1 ! (l + 1) = (2 * real l + n - 1) / (2 * real l + 5 - n) * C1 ! l"
      by auto
    have len: "length C1 = length C" using c1 by (rule C_ell_loop_length)
    from st have C': "C' = C1[b + 1 := (2 * real b + n - 1) / (2 * real b + 5 - n) * C1 ! b]"
      by (auto split: if_splits)
    have a: "\<forall>k. k \<le> 2 \<or> Suc b < k \<longrightarrow> C' ! k = C ! k"
      using True ih1 by (auto simp: C')
    have b: "\<forall>l. 2 \<le> l \<and> l < Suc b \<longrightarrow>
            C' ! (l + 1) = (2 * real l + n - 1) / (2 * real l + 5 - n) * C' ! l"
    proof (intro allI impI)
      fix l assume l: "2 \<le> l \<and> l < Suc b"
      show "C' ! (l + 1) = (2 * real l + n - 1) / (2 * real l + 5 - n) * C' ! l"
      proof (cases "l = b")
        case True
        then show ?thesis using Suc.prems(2) len by (simp add: C')
      next
        case False
        with l have "l < b" by simp
        then show ?thesis using ih2[of l] l by (simp add: C')
      qed
    qed
    from a b show ?thesis by blast
  qed
qed

lemma get_C_ell_model_shape:
  assumes "2 \<le> lmax" and "\<forall>l\<in>{2..<nat lmax}. 2 * real l + 5 - n \<noteq> 0"
  shows "\<exists>C. get_C_ell_model Q n lmax = Inr C \<and> length C = nat (lmax + 1) \<and>
           C ! 0 = 0 \<and> C ! 1 = 0 \<and> C ! 2 = 4 * pi / 5 * Q ^ 2 \<and>
           (\<forall>l. 2 \<le> l \<and> l < nat lmax \<longrightarrow>
              C ! (l + 1) = (2 * real l + n - 1) / (2 * real l + 5 - n) * C ! l)"
proof -
  define C0 where "C0 = (replicate (nat (lmax + 1)) (0::real))[2 := 4 * pi / 5 * Q ^ 2]"
  have len0: "length C0 = nat (lmax + 1)" by (simp add: C0_def)
  have lt: "nat lmax < length C0" using assms(1) len0 by simp
  from assms(2) have "\<forall>l\<in>set [2..<nat lmax]. 2 * real l + 5 - n \<noteq> 0" by simp
  from C_ell_loop_ok[OF this] obtain C where C: "C_ell_loop n [2..<nat lmax] C0 = Inr C"
    by blast
  have run: "get_C_ell_model Q n lmax = Inr C"
    using assms(1) C by (simp add: get_C_ell_model_def C0_def Let_def)
  have len: "length C = nat (lmax + 1)" using C_ell_loop_length[OF C] len0 by simp
  from C_ell_loop_upto[OF C lt] have
    keep: "\<And>k. k \<le> 2 \<Longrightarrow> C ! k = C0 ! k" and
    rec: "\<forall>l. 2 \<le> l \<and> l < nat lmax \<longrightarrow>
            C ! (l + 1) = (2 * real l + n - 1) / (2 * real l + 5 - n) * C ! l"
    by auto
  have "C0 ! 0 = 0" "C0 ! 1 = 0" "C0 ! 2 = 4 * pi / 5 * Q ^ 2"
    using assms(1) by (simp_all add: C0_def)
  with keep[of 0] keep[of 1] keep[of 2] have "C ! 0 = 0" "C ! 1 = 0" "C ! 2 = 4 * pi / 5 * Q ^ 2"
    by simp_all
  with run len rec show ?thesis by blast
qed

lemma get_C_ell_model_1_1_5:
  "get_C_ell_model 1 1 5 = Inr [0, 0, 4 * pi / 5, 2 * pi / 5, 6 * pi / 25, 4 * pi / 25]"
proof -
  have "[2..<nat 5] = [2, 3, 4]" by (simp add: upt_rec)
  moreover have "replicate (nat (5 + 1)) (0::real) = [0, 0, 0, 0, 0, 0]"
    by (simp add: numeral_eq_Suc)
  ultimately show ?thesis by (simp add: get_C_ell_model_def)
qed

lemma get_C_ell_model_neg: "get_C_ell_model (- Q) n lmax = get_C_ell_model Q n lmax"
  by (simp add: get_C_ell_model_def)

text \<open>
  Claim C4. For a spectral index \<open>n\<close> whose denominators \<open>2 l + 5 - n\<close> are all
  nonzero and \<open>lmax \<ge> 2\<close>, \<open>get_C_ell_model Q n lmax\<close> returns an array of length
  \<open>lmax + 1\<close> with \<open>C[0] = C[1] = 0\<close>, \<open>C[2] = 4 pi / 5 * Q^2\<close> and
  \<open>C[l + 1] = C[l] * (2 l + n - 1) / (2 l + 5 - n)\<close> for every \<open>l\<close> from 2 to
  \<open>lmax - 1\<close>; for \<open>lmax = 5\<close>, \<open>Q = 1\<close>, \<open>n = 1\<close> it gives \<open>C[2] = 4 pi / 5\<close> and
  \<open>C[3] / C[2] = 1 / 2\<close>. The amplitude needs not be positive.
\<close>

theorem get_C_ell_model_recursion:
  assumes "2 \<le> lmax" and "\<forall>l\<in>{2..<nat lmax}. 2 * real l + 5 - n \<noteq> 0"
  shows "(\<exists>C. get_C_ell_model Q n lmax = Inr C \<and> int (length C) = lmax + 1 \<and>
            C ! 0 = 0 \<and> C ! 1 = 0 \<and> C ! 2 = 4 * pi / 5 * Q ^ 2 \<and>
            (\<forall>l\<in>{2..<nat lmax}.
               C ! (l + 1) = C ! l * (2 * real l + n - 1) / (2 * real l + 5 - n))) \<and>
         (\<exists>C. get_C_ell_model 1 1 5 = Inr C \<and> C ! 2 = 4 * pi / 5 \<and> C ! 3 / C ! 2 = 1 / 2)"
proof
  from get_C_ell_model_shape[OF assms, of Q] obtain C where
    C: "get_C_ell_model Q n lmax = Inr C" "length C = nat (lmax + 1)"
       "C ! 0 = 0" "C ! 1 = 0" "C ! 2 = 4 * pi / 5 * Q ^ 2" and
    rec: "\<forall>l. 2 \<le> l \<and> l < nat lmax \<longrightarrow>
            C ! (l + 1) = (2 * real l + n - 1) / (2 * real l + 5 - n) * C ! l"
    by blast
  have "int (length C) = lmax + 1" using C(2) assms(1) by simp
  moreover have "\<forall>l\<in>{2..<nat lmax}.
      C ! (l + 1) = C ! l * (2 * real l + n - 1) / (2 * real l + 5 - n)"
    using rec by (simp add: mult.commute)
  ultimately show "\<exists>C. get_C_ell_model Q n lmax = Inr C \<and> int (length C) = lmax + 1 \<and>
            C ! 0 = 0 \<and> C ! 1 = 0 \<and> C ! 2 = 4 * pi / 5 * Q ^ 2 \<and>
            (\<forall>l\<in>{2..<nat lmax}.
               C ! (l + 1) = C ! l * (2 * real l + n - 1) / (2 * real l + 5 - n))"
    using C by blast
next
  show "\<exists>C. get_C_ell_model 1 1 5 = Inr C \<and> C ! 2 = 4 * pi / 5 \<and> C ! 3 / C ! 2 = 1 / 2"
    by (simp add: get_C_ell_model_1_1_5 numeral_3_eq_3)
qed

theorem get_C_ell_model_recursion_witness:
  "(2::int) \<le> 3 \<and> 2 * real 2 + 5 - 1 \<noteq> 0 \<and>
   (\<exists>C. get_C_ell_model 2 1 3 = Inr C \<and> length C = 4 \<and> C ! 0 = 0 \<and> C ! 1 = 0 \<and>
        C ! 2 = 16 * pi / 5 \<and> C ! 3 = C ! 2 * (2 * 2 + 1 - 1) / (2 * 2 + 5 - 1))"
proof -
  have h1: "(2::int) \<le> 3" by simp
  have h2: "\<forall>l\<in>{2..<nat 3}. 2 * real l + 5 - 1 \<noteq> 0" by auto
  have m: "(2::nat) \<in> {2..<nat 3}" by simp
  from get_C_ell_model_recursion[OF h1 h2, of 2] obtain C where
    C: "get_C_ell_model 2 1 3 = Inr C" "int (length C) = 3 + 1"
       "C ! 0 = 0" "C ! 1 = 0" "C ! 2 = 4 * pi / 5 * 2 ^ 2" and
    rec: "\<forall>l\<in>{2..<nat 3}.
               C ! (l + 1) = C ! l * (2 * real l + 1 - 1) / (2 * real l + 5 - 1)"
    by blast
  from rec m have "C ! (2 + 1) = C ! 2 * (2 * real 2 + 1 - 1) / (2 * real 2 + 5 - 1)"
    by blast
  then have "C ! 3 = C ! 2 * (2 * 2 + 1 - 1) / (2 * 2 + 5 - 1)" by simp
  moreover have "length C = 4" using C(2) by simp
  moreover have "C ! 2 = 16 * pi / 5" using C(5) by simp
  moreover have "2 * real 2 + 5 - 1 \<noteq> 0" by simp
  ultimately show ?thesis using h1 C by blast
qed

text \<open>
  Claim C10. The spectrum depends on \<open>Q\<close> only through \<open>Q^2\<close>: every entry of
  \<open>get_C_ell_model Q n lmax\<close> is \<open>Q^2\<close> times the entry of
  \<open>get_C_ell_model 1 n lmax\<close>, and \<open>Q\<close> and \<open>- Q\<close> give the same spectrum.
\<close>

theorem get_C_ell_model_scaling:
  assumes "2 \<le> lmax" and "\<forall>l\<in>{2..<nat lmax}. 2 * real l + 5 - n \<noteq> 0"
  shows "\<exists>C C1. get_C_ell_model Q n lmax = Inr C \<and> get_C_ell_model 1 n lmax = Inr C1 \<and>
           length C = length C1 \<and> (\<forall>k<length C. C ! k = Q ^ 2 * C1 ! k) \<and>
           get_C_ell_model (- Q) n lmax = Inr C"
proof -
  from get_C_ell_model_shape[OF assms, of Q] obtain C where
    C: "get_C_ell_model Q n lmax = Inr C" "length C = nat (lmax + 1)"
       "C ! 0 = 0" "C ! 1 = 0" "C ! 2 = 4 * pi / 5 * Q ^ 2" and
    rec: "\<And>l. 2 \<le> l \<Longrightarrow> l < nat lmax \<Longrightarrow>
            C ! (l + 1) = (2 * real l + n - 1) / (2 * real l + 5 - n) * C ! l"
    by blast
  from get_C_ell_model_shape[OF assms, of 1] obtain C1 where
    C1: "get_C_ell_model 1 n lmax = Inr C1" "length C1 = nat (lmax + 1)"
       "C1 ! 0 = 0" "C1 ! 1 = 0" "C1 ! 2 = 4 * pi / 5 * 1 ^ 2" and
    rec1: "\<And>l. 2 \<le> l \<Longrightarrow> l < nat lmax \<Longrightarrow>
            C1 ! (l + 1) = (2 * real l + n - 1) / (2 * real l + 5 - n) * C1 ! l"
    by blast
  have ent: "k \<le> nat lmax \<Longrightarrow> C ! k = Q ^ 2 * C1 ! k" for k
  proof (induction k)
    case 0
    then show ?case using C(3) C1(3) by simp
  next
    case (Suc k)
    show ?case
    proof (cases "2 \<le> k")
      case True
      with Suc.prems have lt: "k < nat lmax" by simp
      from Suc.IH lt have "C ! k = Q ^ 2 * C1 ! k" by simp
      with rec[OF True lt] rec1[OF True lt] show ?thesis by simp
    next
      case False
      then consider "k = 0" | "k = 1" by linarith
      then show ?thesis
      proof cases
        case 1
        then show ?thesis using C(4) C1(4) by simp
      next
        case 2
        have "C1 ! 2 = 4 * pi / 5" using C1(5) by simp
        then have "C ! 2 = Q ^ 2 * C1 ! 2" by (simp only: C(5) mult.commute)
        then show ?thesis using 2 by (simp add: numeral_2_eq_2)
      qed
    qed
  qed
  have "\<forall>k<length C. C ! k = Q ^ 2 * C1 ! k"
    using ent C(2) assms(1) by simp
  moreover have "get_C_ell_model (- Q) n lmax = Inr C"
    using C(1) by (simp only: get_C_ell_model_neg)
  ultimately show ?thesis using C(1,2) C1(1,2) by auto
qed

theorem get_C_ell_model_scaling_witness:
  "(2::int) \<le> 3 \<and> 2 * real 2 + 5 - 1 \<noteq> 0 \<and>
   (\<exists>C C1. get_C_ell_model 3 1 3 = Inr C \<and> get_C_ell_model 1 1 3 = Inr C1 \<and>
        length C = length C1 \<and> (\<forall>k<length C. C ! k = 3 ^ 2 * C1 ! k) \<and>
        get_C_ell_model (- 3) 1 3 = Inr C)"
proof -
  have h1: "(2::int) \<le> 3" by simp
  have h2: "\<forall>l\<in>{2..<nat 3}. 2 * real l + 5 - 1 \<noteq> 0" by auto
  have h3: "2 * real 2 + 5 - 1 \<noteq> 0" by simp
  from get_C_ell_model_scaling[OF h1 h2, of 3] h1 h3 show ?thesis by blast
qed

subsection \<open>Zero denominators\<close>

lemma C_ell_loop_np_length: "length (C_ell_loop_np n ls C) = length C"
  by (induction ls arbitrary: C) auto

lemma C_ell_loop_np_append:
  "C_ell_loop_np n (xs @ ys) C = C_ell_loop_np n ys (C_ell_loop_np n xs C)"
  by (induction xs arbitrary: C) auto

lemma C_ell_loop_np_keeps:
  "\<forall>l\<in>set ls. l + 1 \<noteq> k \<Longrightarrow> C_ell_loop_np n ls C ! k = C ! k"
  by (induction ls arbitrary: C) auto

lemma np_mul_PInf_not_finite: "\<not> is_finite (np_mul PInf y)"
  by (cases y) auto

text \<open>
  With nonzero denominators the two models of the loop agree: the NumPy loop returns the
  numbers of the Python loop.
\<close>

lemma C_ell_loop_np_agrees:
  "\<forall>l\<in>set ls. 2 * real l + 5 - n \<noteq> 0 \<and> l < length C \<Longrightarrow>
   C_ell_loop n ls C = Inr C' \<Longrightarrow> C_ell_loop_np n ls (map Fin C) = map Fin C'"
proof (induction ls arbitrary: C)
  case Nil
  then show ?case by simp
next
  case (Cons l ls)
  let ?v = "(2 * real l + n - 1) / (2 * real l + 5 - n) * C ! l"
  from Cons.prems(1) have d: "2 * real l + 5 - n \<noteq> 0" and l: "l < length C" by simp_all
  have step: "(map Fin C)[l + 1 := np_mul (np_div (2 * real l + n - 1) (2 * real l + 5 - n))
                  (map Fin C ! l)] = map Fin (C[l + 1 := ?v])"
    using d l by (simp add: np_div_def map_update)
  from Cons.prems(2) d have run: "C_ell_loop n ls (C[l + 1 := ?v]) = Inr C'" by simp
  have "\<forall>l'\<in>set ls. 2 * real l' + 5 - n \<noteq> 0 \<and> l' < length (C[l + 1 := ?v])"
    using Cons.prems(1) by simp
  from Cons.IH[OF this run] show ?case
    using step by (simp del: One_nat_def)
qed

lemma get_C_ell_model_np_agrees:
  assumes "\<forall>l\<in>{2..<nat lmax}. 2 * real l + 5 - n \<noteq> 0"
    and "get_C_ell_model Q n lmax = Inr C"
  shows "get_C_ell_model_np Q n lmax = Inr (map Fin C)"
proof -
  let ?C0 = "(replicate (nat (lmax + 1)) (0::real))[2 := 4 * pi / 5 * Q ^ 2]"
  from assms(2) have ok: "\<not> lmax + 1 < 0" "\<not> nat (lmax + 1) \<le> 2"
    and run: "C_ell_loop n [2..<nat lmax] ?C0 = Inr C"
    by (auto simp: get_C_ell_model_def Let_def split: if_splits)
  have init: "(replicate (nat (lmax + 1)) (Fin 0))[2 := Fin (4 * pi / 5 * Q ^ 2)] = map Fin ?C0"
    by (simp add: map_update)
  have "\<forall>l\<in>set [2..<nat lmax]. 2 * real l + 5 - n \<noteq> 0 \<and> l < length ?C0"
    using assms(1) ok by auto
  from C_ell_loop_np_agrees[OF this run] show ?thesis
    using ok by (simp only: get_C_ell_model_np_def Let_def init length_replicate if_False)
qed

lemma get_C_ell_model_np_example:
  "get_C_ell_model_np 1 9 3 = Inr [Fin 0, Fin 0, Fin (4 * pi / 5), PInf]"
proof -
  have "[2..<nat 3] = [2]" by (simp add: upt_rec)
  moreover have "replicate (nat (3 + 1)) (Fin 0) = [Fin 0, Fin 0, Fin 0, Fin 0]"
    by (simp add: numeral_eq_Suc)
  ultimately show ?thesis by (simp add: get_C_ell_model_np_def np_div_def)
qed

lemma upt_split_at:
  assumes "a \<le> l" "l < m"
  shows "[a..<m] = [a..<l] @ l # [Suc l..<m]"
proof -
  have "[a..<l + (m - l)] = [a..<l] @ [l..<l + (m - l)]"
    using assms(1) by (rule upt_add_eq_append)
  moreover have "l + (m - l) = m" using assms(2) by simp
  ultimately have A: "[a..<m] = [a..<l] @ [l..<m]" by (simp only:)
  have B: "[l..<m] = l # [Suc l..<m]" using assms(2) by (rule upt_conv_Cons)
  show ?thesis by (simp only: A B)
qed

lemma get_C_ell_model_raises:
  assumes "2 \<le> lmax" and "\<exists>l\<in>{2..<nat lmax}. 2 * real l + 5 - n = 0"
  shows "get_C_ell_model Q n lmax = Inl ZeroDivisionError"
proof -
  from assms(2) have "\<exists>l\<in>set [2..<nat lmax]. 2 * real l + 5 - n = 0" by simp
  from C_ell_loop_fail[OF this] show ?thesis
    using assms(1) by (simp add: get_C_ell_model_def Let_def)
qed

lemma get_C_ell_model_np_not_finite:
  assumes "2 \<le> lmax" and "\<exists>l\<in>{2..<nat lmax}. 2 * real l + 5 - n = 0"
  shows "\<exists>C. get_C_ell_model_np Q n lmax = Inr C \<and> length C = nat (lmax + 1) \<and>
           (\<exists>k<length C. \<not> is_finite (C ! k))"
proof -
  from assms(2) obtain l where l: "2 \<le> l" "l < nat lmax" and z: "2 * real l + 5 - n = 0"
    by auto
  define C0 where "C0 = (replicate (nat (lmax + 1)) (Fin 0))[2 := Fin (4 * pi / 5 * Q ^ 2)]"
  define C1 where "C1 = C_ell_loop_np n [2..<l] C0"
  define C2 where
    "C2 = C1[l + 1 := np_mul (np_div (2 * real l + n - 1) (2 * real l + 5 - n)) (C1 ! l)]"
  define C where "C = C_ell_loop_np n [Suc l..<nat lmax] C2"
  have len0: "length C0 = nat (lmax + 1)" by (simp add: C0_def)
  have len1: "length C1 = nat (lmax + 1)" by (simp add: C1_def C_ell_loop_np_length len0)
  have len: "length C = nat (lmax + 1)"
    by (simp add: C_def C2_def C_ell_loop_np_length len1)
  have k: "l + 1 < nat (lmax + 1)" using l(2) assms(1) by simp
  have "0 < 2 * real l + n - 1" using z by simp
  then have "np_div (2 * real l + n - 1) (2 * real l + 5 - n) = PInf"
    using z by (simp add: np_div_def)
  then have "C2 ! (l + 1) = np_mul PInf (C1 ! l)"
    using k len1 by (simp add: C2_def)
  moreover have "C ! (l + 1) = C2 ! (l + 1)"
    unfolding C_def by (rule C_ell_loop_np_keeps) simp
  ultimately have nf: "\<not> is_finite (C ! (l + 1))"
    by (simp add: np_mul_PInf_not_finite)
  have "[2..<nat lmax] = [2..<l] @ l # [Suc l..<nat lmax]" using l by (rule upt_split_at)
  then have "C_ell_loop_np n [2..<nat lmax] C0 =
             C_ell_loop_np n (l # [Suc l..<nat lmax]) (C_ell_loop_np n [2..<l] C0)"
    by (simp only: C_ell_loop_np_append)
  also have "\<dots> = C"
    by (simp only: C_def C2_def C1_def C_ell_loop_np.simps)
  finally have "C_ell_loop_np n [2..<nat lmax] C0 = C" .
  then have "get_C_ell_model_np Q n lmax = Inr C"
    using assms(1) by (simp add: get_C_ell_model_np_def C0_def Let_def)
  moreover have "l + 1 < length C" using k len by simp
  ultimately show ?thesis using len nf by blast
qed

text \<open>
  Claim C5, as stated, fails when \<open>n\<close> is a \<open>numpy.float64\<close>: for \<open>Q = 1\<close>, \<open>n = 9\<close> and
  \<open>lmax = 3\<close> the denominator is zero at \<open>l = 2\<close>, and the call raises nothing and returns
  an array whose last entry is infinite.
\<close>

theorem get_C_ell_model_np_returns_inf:
  "2 * real 2 + 5 - 9 = 0 \<and>
   get_C_ell_model_np 1 9 3 = Inr [Fin 0, Fin 0, Fin (4 * pi / 5), PInf]"
  by (simp add: get_C_ell_model_np_example)

text \<open>
  Claim C5, amended. The code does not test the denominator. When \<open>2 l + 5 - n\<close> is
  zero for some \<open>l\<close> in \<open>2 .. lmax - 1\<close>, the call with \<open>n\<close> a Python int or float
  returns no array: Python's division raises ZeroDivisionError. The call with \<open>n\<close> a
  \<open>numpy.float64\<close> returns an array of length \<open>lmax + 1\<close> with an entry that is infinite
  or NaN.
\<close>

theorem get_C_ell_model_zero_denominator_by_type:
  assumes "2 \<le> lmax" and "\<exists>l\<in>{2..<nat lmax}. 2 * real l + 5 - n = 0"
  shows "get_C_ell_model Q n lmax = Inl ZeroDivisionError \<and>
         (\<exists>C. get_C_ell_model_np Q n lmax = Inr C \<and> length C = nat (lmax + 1) \<and>
            (\<exists>k<length C. \<not> is_finite (C ! k)))"
  using get_C_ell_model_raises[OF assms] get_C_ell_model_np_not_finite[OF assms] by blast

theorem get_C_ell_model_zero_denominator_by_type_witness:
  "(2::int) \<le> 3 \<and> (\<exists>l\<in>{2..<nat 3}. 2 * real l + 5 - 9 = 0) \<and>
   get_C_ell_model 1 9 3 = Inl ZeroDivisionError \<and>
   (\<exists>C. get_C_ell_model_np 1 9 3 = Inr C \<and> length C = nat (3 + 1) \<and>
      (\<exists>k<length C. \<not> is_finite (C ! k)))"
proof -
  have h1: "(2::int) \<le> 3" by simp
  have "(2::nat) \<in> {2..<nat 3} \<and> 2 * real 2 + 5 - 9 = 0" by simp
  then have h2: "\<exists>l\<in>{2..<nat 3}. 2 * real l + 5 - 9 = 0" by blast
  from get_C_ell_model_zero_denominator_by_type[OF h1 h2, of 1] h1 h2 show ?thesis by blast
qed

section \<open>Properties of the noise covariance\<close>

lemma get_noise_cov_length: "length (get_noise_cov rms) = rms_len rms"
  by (simp add: get_noise_cov_def eye_def)

lemma rms_squared_length: "length (rms_squared rms) = rms_len rms"
  by (cases rms) simp_all

lemma rms_values_length: "length (rms_values rms) = rms_len rms"
  by (cases rms) simp_all

lemma get_noise_cov_row:
  "i < rms_len rms \<Longrightarrow>
   get_noise_cov rms ! i = map (\<lambda>j. if i = j then rms_squared rms ! j else 0) [0..<rms_len rms]"
  by (auto simp: get_noise_cov_def eye_def rms_squared_length intro!: nth_equalityI)

lemma get_noise_cov_entry:
  "i < rms_len rms \<Longrightarrow> j < rms_len rms \<Longrightarrow>
   get_noise_cov rms ! i ! j = (if i = j then rms_squared rms ! i else 0)"
  by (simp add: get_noise_cov_row)

lemma get_noise_cov_symmetric: "symmetric (get_noise_cov rms)"
  by (auto simp: symmetric_def is_mat_def list_all_iff get_noise_cov_length
      get_noise_cov_row in_set_conv_nth)

lemma sint_square_fits:
  fixes w :: "64 word"
  assumes "(sint w) ^ 2 < 2 ^ 63"
  shows "sint (w ^ 2) = (sint w) ^ 2"
proof -
  have "sint (w ^ 2) = signed_take_bit 63 (sint w * sint w)"
    by (simp add: power2_eq_square sint_word_ariths)
  also have "\<dots> = sint w * sint w"
  proof (rule signed_take_bit_int_eq_self)
    have "0 \<le> sint w * sint w" by simp
    moreover have "- (2 ^ 63) \<le> (0::int)" by simp
    ultimately show "- (2 ^ 63) \<le> sint w * sint w" by (rule order_trans[rotated])
    show "sint w * sint w < 2 ^ 63" using assms by (simp add: power2_eq_square)
  qed
  finally show ?thesis by (simp add: power2_eq_square)
qed

lemma rms_squared_fits:
  assumes "squares_fit rms" "i < rms_len rms"
  shows "rms_squared rms ! i = rms_values rms ! i ^ 2"
proof (cases rms)
  case (Int64 ws)
  with assms have fit: "(sint (ws ! i)) ^ 2 < 2 ^ 63" by (simp add: list_all_length)
  have "rms_squared rms ! i = real_of_int (sint ((ws ! i) ^ 2))"
    using Int64 assms(2) by simp
  also have "\<dots> = real_of_int ((sint (ws ! i)) ^ 2)"
    by (simp only: sint_square_fits[OF fit])
  also have "\<dots> = (real_of_int (sint (ws ! i))) ^ 2"
    by (simp only: of_int_power)
  also have "\<dots> = rms_values rms ! i ^ 2"
    using Int64 assms(2) by simp
  finally show ?thesis .
next
  case (Float64 xs)
  with assms(2) show ?thesis by simp
qed

lemma get_noise_cov_123: "get_noise_cov (Int64 [1, 2, 3]) = [[1, 0, 0], [0, 4, 0], [0, 0, 9]]"
  by (simp add: get_noise_cov_def eye_def upt_rec)

lemma get_noise_cov_123_float:
  "get_noise_cov (Float64 [1, 2, 3]) = [[1, 0, 0], [0, 4, 0], [0, 0, 9]]"
  by (simp add: get_noise_cov_def eye_def upt_rec)

lemma get_noise_cov_wraps:
  "get_noise_cov (Int64 [4294967296, 1]) = [[0, 0], [0, 1]]"
  by (simp add: get_noise_cov_def eye_def upt_rec)

text \<open>
  Claim C7, as stated, fails on an integer sequence with a large entry: for
  \<open>rms = [2^32, 1]\<close> the square \<open>2^64\<close> wraps to 0 in int64, so the entry \<open>(0, 0)\<close> of
  the result is 0 and not \<open>rms[0]^2\<close>.
\<close>

theorem get_noise_cov_int64_wraps:
  "get_noise_cov (Int64 [4294967296, 1]) ! 0 ! 0 = 0 \<and>
   rms_values (Int64 [4294967296, 1]) ! 0 ^ 2 = 18446744073709551616 \<and>
   get_noise_cov (Int64 [4294967296, 1]) ! 0 ! 0 \<noteq> rms_values (Int64 [4294967296, 1]) ! 0 ^ 2"
  by (simp add: get_noise_cov_wraps)

text \<open>
  Claim C7, amended. For every array \<open>rms\<close> of \<open>N\<close> standard deviations,
  \<open>get_noise_cov rms\<close> is an \<open>N \<times> N\<close> matrix whose off-diagonal entries are 0, and it is
  symmetric. When \<open>rms\<close> is a float array, or an integer array whose squares fit the
  signed 64-bit range, the entry \<open>(i, i)\<close> is \<open>rms[i]^2\<close>. For \<open>rms = [1, 2, 3]\<close>, as
  integers or as floats, the result is \<open>diag [1, 4, 9]\<close>.
\<close>

theorem get_noise_cov_diagonal_in_range:
  "is_mat (rms_len rms) (rms_len rms) (get_noise_cov rms) \<and>
   (\<forall>i<rms_len rms. \<forall>j<rms_len rms. i \<noteq> j \<longrightarrow> get_noise_cov rms ! i ! j = 0) \<and>
   symmetric (get_noise_cov rms) \<and>
   (squares_fit rms \<longrightarrow>
      (\<forall>i<rms_len rms. get_noise_cov rms ! i ! i = rms_values rms ! i ^ 2)) \<and>
   get_noise_cov (Int64 [1, 2, 3]) = [[1, 0, 0], [0, 4, 0], [0, 0, 9]] \<and>
   get_noise_cov (Float64 [1, 2, 3]) = [[1, 0, 0], [0, 4, 0], [0, 0, 9]]"
proof -
  have m: "is_mat (rms_len rms) (rms_len rms) (get_noise_cov rms)"
    using get_noise_cov_symmetric[of rms]
    by (simp add: symmetric_def get_noise_cov_length)
  have off: "\<forall>i<rms_len rms. \<forall>j<rms_len rms. i \<noteq> j \<longrightarrow> get_noise_cov rms ! i ! j = 0"
    by (simp add: get_noise_cov_entry)
  have dg: "squares_fit rms \<longrightarrow>
      (\<forall>i<rms_len rms. get_noise_cov rms ! i ! i = rms_values rms ! i ^ 2)"
    by (simp add: get_noise_cov_entry rms_squared_fits)
  from m off dg show ?thesis
    using get_noise_cov_symmetric get_noise_cov_123 get_noise_cov_123_float by blast
qed

theorem get_noise_cov_diagonal_in_range_witness:
  "squares_fit (Int64 [2, 5]) \<and>
   get_noise_cov (Int64 [2, 5]) ! 1 ! 1 = 25 \<and> get_noise_cov (Int64 [2, 5]) ! 0 ! 1 = 0 \<and>
   get_noise_cov (Int64 [2, 5]) ! 1 ! 0 = 0 \<and> get_noise_cov (Int64 [2, 5]) ! 0 ! 0 = 4 \<and>
   symmetric (get_noise_cov (Int64 [2, 5]))"
proof -
  have f: "squares_fit (Int64 [2, 5])" by simp
  have off: "\<And>i j. i < 2 \<Longrightarrow> j < 2 \<Longrightarrow> i \<noteq> j \<Longrightarrow> get_noise_cov (Int64 [2, 5]) ! i ! j = 0"
    and dg: "\<And>i. i < 2 \<Longrightarrow>
      get_noise_cov (Int64 [2, 5]) ! i ! i = rms_values (Int64 [2, 5]) ! i ^ 2"
    and s: "symmetric (get_noise_cov (Int64 [2, 5]))"
    using get_noise_cov_diagonal_in_range[of "Int64 [2, 5]"] f by simp_all
  from dg[of 1] dg[of 0] off[of 0 1] off[of 1 0] s f show ?thesis by simp
qed

section \<open>Properties of the foreground covariance\<close>

lemma badd_same:
  "length A = length B \<Longrightarrow> badd A B = Inr (map2 (map2 (+)) A B)"
  by (simp add: badd_def)





section \<open>Properties of the Legendre tensor\<close>

lemma legendre_one: "legendre l 1 = 1"
proof (induction l "1::real" rule: legendre.induct)
  case 1
  show ?case by simp
next
  case 2
  show ?case by simp
next
  case (3 l)
  have "((2 * real (Suc l) + 1) * 1 * 1 - real (Suc l) * 1) / (real (Suc l) + 1) = 1"
    by (simp add: field_simps)
  with 3 show ?case by simp
qed

lemma map2_map_map_same:
  "map2 h (map f xs) (map g xs) = map (\<lambda>x. h (f x) (g x)) xs"
  by (induction xs) auto

lemma set_slice_map:
  "set_slice (map (\<lambda>row. map f row) c) l (map (\<lambda>row. map g row) c) =
   map (\<lambda>row. map (\<lambda>v. (f v)[l := g v]) row) c"
  by (simp add: set_slice_def map2_map_map_same)

lemma legendre_loop_map:
  "legendre_loop leg c ls (map (\<lambda>row. map f row) c) =
   map (\<lambda>row. map (\<lambda>v. fold (\<lambda>l cell. cell[l := (leg ! l) v]) ls (f v)) row) c"
proof (induction ls arbitrary: f)
  case Nil
  show ?case by simp
next
  case (Cons l ls)
  have "legendre_loop leg c (l # ls) (map (\<lambda>row. map f row) c) =
        legendre_loop leg c ls (map (\<lambda>row. map (\<lambda>v. (f v)[l := (leg ! l) v]) row) c)"
    using set_slice_map[of f c l "leg ! l"] by simp
  also have "\<dots> = map (\<lambda>row. map (\<lambda>v. fold (\<lambda>l cell. cell[l := (leg ! l) v]) ls
                        ((f v)[l := (leg ! l) v])) row) c"
    by (rule Cons.IH)
  finally show ?case by simp
qed

lemma fold_update_length:
  "length (fold (\<lambda>l cell. cell[l := g l]) ls cell) = length cell"
  by (induction ls arbitrary: cell) auto

lemma fold_update_nth:
  "k < length cell \<Longrightarrow>
   fold (\<lambda>l cell. cell[l := g l]) ls cell ! k = (if k \<in> set ls then g k else cell ! k)"
  by (induction ls arbitrary: cell) (auto simp: nth_list_update)

lemma fold_update_all:
  "fold (\<lambda>l cell. cell[l := g l]) [0..<K] (replicate K a) = map g [0..<K]"
  by (rule nth_equalityI) (simp_all add: fold_update_length fold_update_nth)


lemma get_legendre_mat_eq:
  assumes "length y = length x" "length z = length x" "0 \<le> lmax + 1"
  shows "get_legendre_mat lmax x y z =
         Inr (map (\<lambda>row. map (\<lambda>v. map (\<lambda>l. legendre l v) [0..<nat (lmax + 1)]) row)
                (costheta_of x y z))"
proof -
  let ?K = "nat (lmax + 1)"
  let ?pos = "map (\<lambda>i. [x ! i, y ! i, z ! i]) [0..<length x]"
  have ct: "map (\<lambda>p. map (\<lambda>q. dot p q) ?pos) ?pos = costheta_of x y z"
    by (simp add: costheta_of_def dot_def comp_def)
  have init: "replicate (length x) (replicate (length x) (replicate ?K (0::real))) =
              map (\<lambda>row. map (\<lambda>v. replicate ?K 0) row) (costheta_of x y z)"
    by (auto simp: costheta_of_def intro!: nth_equalityI)
  have cell: "fold (\<lambda>l cell. cell[l := (get_legendre_coeff lmax ! l) v]) [0..<?K]
                (replicate ?K 0) = map (\<lambda>l. legendre l v) [0..<?K]" for v
    unfolding fold_update_all by (simp add: get_legendre_coeff_def)
  have "get_legendre_mat lmax x y z =
        Inr (legendre_loop (get_legendre_coeff lmax) (costheta_of x y z) [0..<?K]
               (map (\<lambda>row. map (\<lambda>v. replicate ?K 0) row) (costheta_of x y z)))"
    using assms unfolding get_legendre_mat_def Let_def ct init[symmetric] by simp
  then show ?thesis unfolding legendre_loop_map cell .
qed

lemma costheta_of_symmetric: "symmetric (costheta_of x y z)"
  by (simp add: symmetric_def is_mat_def list_all_iff costheta_of_def mult.commute)

lemma symmetric_map_map:
  assumes "symmetric M"
  shows "symmetric (map (\<lambda>row. map f row) M)"
proof -
  from assms have len: "\<And>i. i < length M \<Longrightarrow> length (M ! i) = length M"
    and sym: "\<And>i j. i < length M \<Longrightarrow> j < length M \<Longrightarrow> M ! i ! j = M ! j ! i"
    by (auto simp: symmetric_def is_mat_def list_all_iff)
  show ?thesis
    using len sym
    by (auto simp: symmetric_def is_mat_def list_all_iff in_set_conv_nth)
qed

lemma slice_legendre:
  "l < K \<Longrightarrow>
   slice (map (\<lambda>row. map (\<lambda>v. map (\<lambda>l. legendre l v) [0..<K]) row) M) l =
   map (\<lambda>row. map (legendre l) row) M"
  by (simp add: slice_def comp_def)

text \<open>
  Claim C9. For \<open>lmax \<ge> 1\<close> and unit vectors \<open>(x[i], y[i], z[i])\<close>, the tensor of
  \<open>get_legendre_mat lmax x y z\<close> has the all-ones matrix as slice 0, the matrix of
  pairwise inner products as slice 1, every slice symmetric, and ones on the diagonal of
  every slice.
\<close>

theorem get_legendre_mat_slices:
  assumes "1 \<le> lmax" and "length y = length x" and "length z = length x"
    and "\<forall>i<length x. x ! i ^ 2 + y ! i ^ 2 + z ! i ^ 2 = 1"
  shows "\<exists>P. get_legendre_mat lmax x y z = Inr P \<and>
           slice P 0 = ones (length x) (length x) \<and>
           is_mat (length x) (length x) (slice P 1) \<and>
           (\<forall>i<length x. \<forall>j<length x.
              slice P 1 ! i ! j = x ! i * x ! j + y ! i * y ! j + z ! i * z ! j) \<and>
           (\<forall>l. int l \<le> lmax \<longrightarrow> symmetric (slice P l)) \<and>
           (\<forall>l. int l \<le> lmax \<longrightarrow> (\<forall>i<length x. slice P l ! i ! i = 1))"
proof -
  let ?N = "length x" and ?K = "nat (lmax + 1)" and ?c = "costheta_of x y z"
  let ?P = "map (\<lambda>row. map (\<lambda>v. map (\<lambda>l. legendre l v) [0..<?K]) row) ?c"
  have P: "get_legendre_mat lmax x y z = Inr ?P"
    using assms(1) by (intro get_legendre_mat_eq[OF assms(2,3)]) simp
  have sl: "slice ?P l = map (\<lambda>row. map (legendre l) row) ?c" if "int l \<le> lmax" for l
    using that by (intro slice_legendre) simp
  have s0: "slice ?P 0 = ones ?N ?N"
    using assms(1) sl[of 0]
    by (auto simp: ones_def costheta_of_def intro!: nth_equalityI)
  have s1: "slice ?P 1 = ?c"
    using assms(1) sl[of 1] by (simp add: map_idI)
  have m1: "is_mat ?N ?N (slice ?P 1)"
    unfolding s1 by (simp add: is_mat_def list_all_iff costheta_of_def)
  have e1: "\<forall>i<?N. \<forall>j<?N. slice ?P 1 ! i ! j = x ! i * x ! j + y ! i * y ! j + z ! i * z ! j"
    unfolding s1 by (simp add: costheta_of_def)
  have sym: "\<forall>l. int l \<le> lmax \<longrightarrow> symmetric (slice ?P l)"
    using sl symmetric_map_map[OF costheta_of_symmetric] by simp
  have diag: "\<forall>l. int l \<le> lmax \<longrightarrow> (\<forall>i<?N. slice ?P l ! i ! i = 1)"
  proof (intro allI impI)
    fix l i assume l: "int l \<le> lmax" and i: "i < ?N"
    from assms(4) i have "x ! i * x ! i + y ! i * y ! i + z ! i * z ! i = 1"
      by (simp add: power2_eq_square)
    then have "?c ! i ! i = 1" using i by (simp add: costheta_of_def)
    moreover have "slice ?P l ! i ! i = legendre l (?c ! i ! i)"
      using sl[OF l] i by (simp add: costheta_of_def)
    ultimately show "slice ?P l ! i ! i = 1" by (simp add: legendre_one)
  qed
  from P s0 m1 e1 sym diag show ?thesis by blast
qed

theorem get_legendre_mat_slices_witness:
  "\<exists>P. get_legendre_mat 2 [1, 0] [0, 1] [0, 0] = Inr P \<and>
       slice P 0 = [[1, 1], [1, 1]] \<and> slice P 1 ! 0 ! 1 = 0 \<and> slice P 1 ! 0 ! 0 = 1 \<and>
       symmetric (slice P 2) \<and> slice P 2 ! 0 ! 0 = 1 \<and> slice P 2 ! 1 ! 1 = 1"
proof -
  have h1: "(1::int) \<le> 2" by simp
  have h2: "length [0, 1 :: real] = length [1, 0 :: real]" by simp
  have h3: "length [0, 0 :: real] = length [1, 0 :: real]" by simp
  have h4: "\<forall>i<length [1, 0 :: real].
      [1, 0] ! i ^ 2 + [0, 1] ! i ^ 2 + [0, 0 :: real] ! i ^ 2 = 1"
    by (auto simp: less_Suc_eq)
  let ?x = "[1, 0 :: real]" and ?y = "[0, 1 :: real]" and ?z = "[0, 0 :: real]"
  from get_legendre_mat_slices[OF h1 h2 h3 h4] obtain P where
    P: "get_legendre_mat 2 ?x ?y ?z = Inr P" and
    s0': "slice P 0 = ones (length ?x) (length ?x)" and
    m1': "is_mat (length ?x) (length ?x) (slice P 1)" and
    e1': "\<forall>i<length ?x. \<forall>j<length ?x.
      slice P 1 ! i ! j = ?x ! i * ?x ! j + ?y ! i * ?y ! j + ?z ! i * ?z ! j" and
    sym': "\<forall>l. int l \<le> 2 \<longrightarrow> symmetric (slice P l)" and
    diag': "\<forall>l. int l \<le> 2 \<longrightarrow> (\<forall>i<length ?x. slice P l ! i ! i = 1)"
    by blast
  have s0: "slice P 0 = ones 2 2" using s0' by (simp add: numeral_2_eq_2)
  have e1: "slice P 1 ! i ! j = ?x ! i * ?x ! j + ?y ! i * ?y ! j + ?z ! i * ?z ! j"
    if "i < 2" "j < 2" for i j using e1' that by (simp add: numeral_2_eq_2)
  have sym: "symmetric (slice P l)" if "int l \<le> 2" for l using sym' that by blast
  have diag: "slice P l ! i ! i = 1" if "int l \<le> 2" "i < 2" for l i
    using diag' that by (simp add: numeral_2_eq_2)
  have "slice P 0 = [[1, 1], [1, 1]]" using s0 by (simp add: ones_def numeral_2_eq_2)
  moreover have "slice P 1 ! 0 ! 1 = 0" "slice P 1 ! 0 ! 0 = 1"
    using e1[of 0 1] e1[of 0 0] by simp_all
  moreover have "symmetric (slice P 2)" using sym[of 2] by simp
  moreover have "slice P 2 ! 0 ! 0 = 1" "slice P 2 ! 1 ! 1 = 1"
    using diag[of 2 0] diag[of 2 1] by simp_all
  ultimately show ?thesis using P by blast
qed

section \<open>Properties of the signal covariance\<close>

lemma map_err_Inr:
  "\<forall>x\<in>set xs. f x = Inr (g x) \<Longrightarrow> map_err f xs = Inr (map g xs)"
  by (induction xs) auto

lemma bmul_same: "length a = length b \<Longrightarrow> bmul a b = Inr (map2 (*) a b)"
  by (simp add: bmul_def)

lemma linspace_nth:
  "k < num \<Longrightarrow> linspace 0 stop num ! k = real k * (stop / real (num - 1))"
  by (auto simp: linspace_def)

lemma linspace_length: "length (linspace start stop num) = num"
  by (simp add: linspace_def)

lemma sum_list_map2_nth:
  "length a = K \<Longrightarrow> length b = K \<Longrightarrow>
   sum_list (map2 (*) a b) = (\<Sum>l\<leftarrow>[0..<K]. a ! l * (b ! l :: real))"
proof -
  assume "length a = K" "length b = K"
  then have "map2 (*) a b = map (\<lambda>l. a ! l * b ! l) [0..<K]"
    by (intro nth_equalityI) auto
  then show ?thesis by simp
qed

text \<open>
  What the code computes when all arrays are aligned: multipole \<open>l\<close> enters with the
  weight \<open>2 * (l * (lmax + 1) / lmax) - 1\<close>.
\<close>

lemma get_signal_cov_eq:
  assumes "length beam = length C_ell" and "length pixwin = length C_ell"
    and "\<forall>row\<in>set p_ell_ij. \<forall>cell\<in>set row. length cell = length C_ell"
  shows "get_signal_cov C_ell beam pixwin p_ell_ij =
         Inr (map (map (\<lambda>cell.
           (\<Sum>l\<leftarrow>[0..<length C_ell].
              (2 * (real l * (real (length C_ell) / real (length C_ell - 1))) - 1) *
                beam ! l ^ 2 * pixwin ! l ^ 2 * C_ell ! l * cell ! l) / (4 * pi))) p_ell_ij)"
proof -
  let ?K = "length C_ell"
  let ?wt = "\<lambda>l. 2 * (real l * (real ?K / real (?K - 1))) - 1"
  let ?ell = "map (\<lambda>v. 2 * v - 1) (linspace 0 (of_int (int ?K - 1 + 1)) (nat (int ?K - 1 + 1)))"
  let ?w3 = "map (\<lambda>l. ?wt l * beam ! l ^ 2 * pixwin ! l ^ 2 * C_ell ! l) [0..<?K]"
  have ell: "?ell = map ?wt [0..<?K]"
    by (intro nth_equalityI) (simp_all add: linspace_length linspace_nth)
  have w1: "bmul ?ell (map (\<lambda>b. b ^ 2) beam) = Inr (map (\<lambda>l. ?wt l * beam ! l ^ 2) [0..<?K])"
    unfolding ell using assms(1)
    by (subst bmul_same) (auto intro!: nth_equalityI)
  have w2: "bmul (map (\<lambda>l. ?wt l * beam ! l ^ 2) [0..<?K]) (map (\<lambda>p. p ^ 2) pixwin) =
            Inr (map (\<lambda>l. ?wt l * beam ! l ^ 2 * pixwin ! l ^ 2) [0..<?K])"
    using assms(2) by (subst bmul_same) (auto intro!: nth_equalityI)
  have w3: "bmul (map (\<lambda>l. ?wt l * beam ! l ^ 2 * pixwin ! l ^ 2) [0..<?K]) C_ell = Inr ?w3"
    by (subst bmul_same) (auto intro!: nth_equalityI)
  have cell: "bmul ?w3 cell = Inr (map2 (*) ?w3 cell)" if "length cell = ?K" for cell
    using that by (simp add: bmul_same)
  have rowE: "map_err (bmul ?w3) row = Inr (map (\<lambda>cell. map2 (*) ?w3 cell) row)"
    if "row \<in> set p_ell_ij" for row
  proof (rule map_err_Inr, rule ballI)
    fix c assume "c \<in> set row"
    with assms(3) that have "length c = ?K" by blast
    then show "bmul ?w3 c = Inr (map2 (*) ?w3 c)" by (rule cell)
  qed
  have terms: "map_err (map_err (bmul ?w3)) p_ell_ij =
               Inr (map (\<lambda>row. map (\<lambda>cell. map2 (*) ?w3 cell) row) p_ell_ij)"
  proof (rule map_err_Inr, rule ballI)
    fix row assume "row \<in> set p_ell_ij"
    then show "map_err (bmul ?w3) row = Inr (map (\<lambda>cell. map2 (*) ?w3 cell) row)"
      by (rule rowE)
  qed
  have s: "sum_list (map2 (*) ?w3 cell) =
           (\<Sum>l\<leftarrow>[0..<?K]. ?wt l * beam ! l ^ 2 * pixwin ! l ^ 2 * C_ell ! l * cell ! l)"
    if "length cell = ?K" for cell
  proof -
    have "sum_list (map2 (*) ?w3 cell) = (\<Sum>l\<leftarrow>[0..<?K]. ?w3 ! l * cell ! l)"
      using that by (intro sum_list_map2_nth) simp_all
    also have "\<dots> = (\<Sum>l\<leftarrow>[0..<?K]. ?wt l * beam ! l ^ 2 * pixwin ! l ^ 2 * C_ell ! l * cell ! l)"
      by (intro arg_cong[where f = sum_list] map_cong refl) simp
    finally show ?thesis .
  qed
  have "get_signal_cov C_ell beam pixwin p_ell_ij =
        Inr (map (map (\<lambda>s. s / (4 * pi)))
               (map (map sum_list) (map (\<lambda>row. map (\<lambda>cell. map2 (*) ?w3 cell) row) p_ell_ij)))"
    unfolding get_signal_cov_def by (simp only: Let_def w1 w2 w3 terms sum.case)
  also have "map (map (\<lambda>s. s / (4 * pi)))
               (map (map sum_list) (map (\<lambda>row. map (\<lambda>cell. map2 (*) ?w3 cell) row) p_ell_ij)) =
             map (map (\<lambda>cell. sum_list (map2 (*) ?w3 cell) / (4 * pi))) p_ell_ij"
    by (simp only: map_map comp_def)
  also have "\<dots> = map (map (\<lambda>cell.
               (\<Sum>l\<leftarrow>[0..<?K]. ?wt l * beam ! l ^ 2 * pixwin ! l ^ 2 * C_ell ! l * cell ! l)
                 / (4 * pi))) p_ell_ij"
  proof (rule map_cong[OF refl], rule map_cong[OF refl])
    fix row cell assume "row \<in> set p_ell_ij" "cell \<in> set row"
    with assms(3) have "length cell = ?K" by blast
    from s[OF this]
    show "sum_list (map2 (*) ?w3 cell) / (4 * pi) =
          (\<Sum>l\<leftarrow>[0..<?K]. ?wt l * beam ! l ^ 2 * pixwin ! l ^ 2 * C_ell ! l * cell ! l)
            / (4 * pi)"
      by (simp only:)
  qed
  finally show ?thesis .
qed

lemma linspace_0_4_4: "linspace 0 4 4 = [0, 4 / 3, 8 / 3, 4]"
  by (simp add: linspace_def upt_rec)

lemma get_signal_cov_example:
  "get_signal_cov [0, 0, 1, 0] [1, 1, 1, 1] [1, 1, 1, 1] [[[1, 1, 1, 1]]] =
     Inr [[13 / (12 * pi)]]"
  by (simp add: get_signal_cov_def linspace_0_4_4 bmul_def)

lemma signal_cov_spec_example:
  "signal_cov_spec [0, 0, 1, 0] [1, 1, 1, 1] [1, 1, 1, 1] [[[1, 1, 1, 1]]] = [[5 / (4 * pi)]]"
  by (simp add: signal_cov_spec_def upt_rec)

text \<open>
  Claim C2. \<open>get_signal_cov\<close> is claimed to weight multipole \<open>l\<close> by
  \<open>(2 l + 1) * beam[l]^2 * pixwin[l]^2 * C[l]\<close>. The code takes the multipoles from
  \<^verbatim>\<open>linspace(0, lmax + 1, lmax + 1)\<close>, whose samples are \<open>l * (lmax + 1) / lmax\<close>,
  and subtracts one instead of adding it: for \<open>lmax = 3\<close> the weight of \<open>l = 2\<close> is
  \<open>13 / 3\<close> instead of 5, so the code and the formula disagree on a spectrum that has
  power at \<open>l = 2\<close> only.
\<close>

theorem get_signal_cov_weights_differ:
  "get_signal_cov [0, 0, 1, 0] [1, 1, 1, 1] [1, 1, 1, 1] [[[1, 1, 1, 1]]] =
     Inr [[13 / (12 * pi)]] \<and>
   signal_cov_spec [0, 0, 1, 0] [1, 1, 1, 1] [1, 1, 1, 1] [[[1, 1, 1, 1]]] = [[5 / (4 * pi)]] \<and>
   get_signal_cov [0, 0, 1, 0] [1, 1, 1, 1] [1, 1, 1, 1] [[[1, 1, 1, 1]]] \<noteq>
     Inr (signal_cov_spec [0, 0, 1, 0] [1, 1, 1, 1] [1, 1, 1, 1] [[[1, 1, 1, 1]]])"
proof -
  have "13 / (12 * pi) \<noteq> 5 / (4 * pi)" by (simp add: field_simps)
  then show ?thesis
    unfolding get_signal_cov_example signal_cov_spec_example by simp
qed

section \<open>Properties of the Cholesky factorisation and the likelihood\<close>

lemma qf_step:
  fixes f :: "nat \<Rightarrow> nat \<Rightarrow> real" and x :: "nat \<Rightarrow> real"
  assumes d: "d \<noteq> 0"
    and row: "\<And>j. j < n \<Longrightarrow> f 0 (Suc j) = d * u j"
    and col: "\<And>i. i < n \<Longrightarrow> f (Suc i) 0 = d * u i"
  shows "(\<Sum>i<Suc n. \<Sum>j<Suc n. x i * f i j * x j) =
         (f 0 0 - d * d) * x 0 * x 0 + (d * x 0 + (\<Sum>i<n. u i * x (Suc i))) ^ 2 +
         (\<Sum>i<n. \<Sum>j<n. x (Suc i) * (f (Suc i) (Suc j) - u i * u j) * x (Suc j))"
proof -
  define s where "s = (\<Sum>i<n. u i * x (Suc i))"
  define q where "q = (\<Sum>i<n. \<Sum>j<n. x (Suc i) * f (Suc i) (Suc j) * x (Suc j))"
  have r0: "(\<Sum>j<n. x 0 * f 0 (Suc j) * x (Suc j)) = x 0 * d * s"
  proof -
    have "(\<Sum>j<n. x 0 * f 0 (Suc j) * x (Suc j)) = (\<Sum>j<n. x 0 * d * (u j * x (Suc j)))"
      by (rule sum.cong) (simp_all add: row)
    then show ?thesis by (simp add: s_def sum_distrib_left)
  qed
  have c0: "(\<Sum>i<n. x (Suc i) * f (Suc i) 0 * x 0) = x 0 * d * s"
  proof -
    have "(\<Sum>i<n. x (Suc i) * f (Suc i) 0 * x 0) = (\<Sum>i<n. x 0 * d * (u i * x (Suc i)))"
      by (rule sum.cong) (simp_all add: col)
    then show ?thesis by (simp add: s_def sum_distrib_left)
  qed
  have ss: "(\<Sum>i<n. \<Sum>j<n. x (Suc i) * (u i * u j) * x (Suc j)) = s * s"
  proof -
    have "s * s = (\<Sum>i<n. \<Sum>j<n. (u i * x (Suc i)) * (u j * x (Suc j)))"
      unfolding s_def by (rule sum_product)
    also have "\<dots> = (\<Sum>i<n. \<Sum>j<n. x (Suc i) * (u i * u j) * x (Suc j))"
      by (intro sum.cong refl) simp
    finally show ?thesis by simp
  qed
  have g: "(\<Sum>i<n. \<Sum>j<n. x (Suc i) * (f (Suc i) (Suc j) - u i * u j) * x (Suc j)) = q - s * s"
  proof -
    have "(\<Sum>i<n. \<Sum>j<n. x (Suc i) * (f (Suc i) (Suc j) - u i * u j) * x (Suc j)) =
          (\<Sum>i<n. (\<Sum>j<n. x (Suc i) * f (Suc i) (Suc j) * x (Suc j)) -
                  (\<Sum>j<n. x (Suc i) * (u i * u j) * x (Suc j)))"
      by (intro sum.cong refl) (simp add: algebra_simps sum_subtractf)
    also have "\<dots> = q - s * s"
      by (simp add: sum_subtractf q_def ss)
    finally show ?thesis .
  qed
  have "(\<Sum>i<Suc n. \<Sum>j<Suc n. x i * f i j * x j) =
        (x 0 * f 0 0 * x 0 + (\<Sum>j<n. x 0 * f 0 (Suc j) * x (Suc j))) +
        (\<Sum>i<n. x (Suc i) * f (Suc i) 0 * x 0 +
                (\<Sum>j<n. x (Suc i) * f (Suc i) (Suc j) * x (Suc j)))"
    by (simp only: sum.lessThan_Suc_shift)
  also have "\<dots> = x 0 * f 0 0 * x 0 + x 0 * d * s + (x 0 * d * s + q)"
    by (simp add: sum.distrib r0 c0 q_def)
  also have "\<dots> = (f 0 0 - d * d) * x 0 * x 0 + (d * x 0 + s) ^ 2 + (q - s * s)"
    by (simp add: power2_eq_square algebra_simps)
  finally show ?thesis unfolding g s_def .
qed

lemma dot_nth:
  assumes "length a = n" "length b = n"
  shows "dot a b = (\<Sum>i<n. a ! i * b ! i)"
proof -
  have "dot a b = (\<Sum>i = 0..<length (map2 (*) a b). map2 (*) a b ! i)"
    unfolding dot_def by (rule sum_list_sum_nth)
  also have "\<dots> = (\<Sum>i<n. a ! i * b ! i)"
    using assms by (intro sum.cong) auto
  finally show ?thesis .
qed

lemma is_mat_nth:
  "is_mat r c M \<Longrightarrow> i < r \<Longrightarrow> length (M ! i) = c"
  by (auto simp: is_mat_def list_all_iff)

lemma quad_form_nth:
  assumes "is_mat n n M" "length x = n"
  shows "quad_form M x = (\<Sum>i<n. \<Sum>j<n. x ! i * M ! i ! j * x ! j)"
proof -
  have len: "length M = n" using assms(1) by (simp add: is_mat_def)
  have "quad_form M x = (\<Sum>i<n. x ! i * mat_vec M x ! i)"
    unfolding quad_form_def using assms(2) len by (intro dot_nth) (simp_all add: mat_vec_def)
  also have "\<dots> = (\<Sum>i<n. x ! i * (\<Sum>j<n. M ! i ! j * x ! j))"
  proof (intro sum.cong refl)
    fix i assume "i \<in> {..<n}"
    then have i: "i < n" by simp
    have "mat_vec M x ! i = dot (M ! i) x" using i len by (simp add: mat_vec_def)
    also have "\<dots> = (\<Sum>j<n. M ! i ! j * x ! j)"
      using is_mat_nth[OF assms(1) i] assms(2) by (rule dot_nth)
    finally show "x ! i * mat_vec M x ! i = x ! i * (\<Sum>j<n. M ! i ! j * x ! j)" by simp
  qed
  also have "\<dots> = (\<Sum>i<n. \<Sum>j<n. x ! i * M ! i ! j * x ! j)"
    by (simp add: sum_distrib_left mult.assoc)
  finally show ?thesis .
qed

lemma is_mat_Suc:
  assumes "is_mat (Suc n) (Suc n) C"
  shows "\<exists>a b rs. C = (a # b) # rs \<and> length b = n \<and> length rs = n \<and>
           (\<forall>i<n. length (rs ! i) = Suc n)"
proof -
  from assms obtain r rs where C: "C = r # rs" "length rs = n"
    by (auto simp: is_mat_def length_Suc_conv)
  from assms C have "length r = Suc n" by (simp add: is_mat_def)
  then obtain a b where r: "r = a # b" "length b = n" by (auto simp: length_Suc_conv)
  have "\<forall>i<n. length (rs ! i) = Suc n"
    using is_mat_nth[OF assms, of "Suc i" for i] C by simp
  with C r show ?thesis by blast
qed

lemma schur_is_mat:
  assumes "length rs = n" "length u = n" "\<And>i. i < n \<Longrightarrow> length (rs ! i) = Suc n"
  shows "is_mat n n (schur (map tl rs) u)"
  using assms
  by (auto simp: is_mat_def schur_def list_all_iff in_set_conv_nth)

lemma schur_nth:
  assumes "length rs = n" "length u = n" "\<And>i. i < n \<Longrightarrow> length (rs ! i) = Suc n"
    "i < n" "j < n"
  shows "schur (map tl rs) u ! i ! j = rs ! i ! Suc j - u ! i * u ! j"
  using assms by (simp add: schur_def nth_tl)

lemma potrf_Inr_cases:
  assumes "potrf ((a # b) # rs) = Inr U"
  obtains U' where "0 < a" "potrf (schur (map tl rs) (map (\<lambda>v. v / sqrt a) b)) = Inr U'"
    "U = (sqrt a # map (\<lambda>v. v / sqrt a) b) # map (\<lambda>row. 0 # row) U'"
  using assms by (auto simp: Let_def split: if_splits sum.splits)

lemma potrf_positive:
  "is_mat n n C \<Longrightarrow> (\<forall>i<n. \<forall>j<n. C ! i ! j = C ! j ! i) \<Longrightarrow> potrf C = Inr U \<Longrightarrow>
   length x = n \<Longrightarrow> (\<exists>i<n. x ! i \<noteq> 0) \<Longrightarrow>
   0 < (\<Sum>i<n. \<Sum>j<n. x ! i * C ! i ! j * x ! j)"
proof (induction n arbitrary: C U x)
  case 0
  then show ?case by simp
next
  case (Suc n)
  from is_mat_Suc[OF Suc.prems(1)] obtain a b rs where
    C: "C = (a # b) # rs" and lb: "length b = n" and lrs: "length rs = n" and
    lrow': "\<forall>i<n. length (rs ! i) = Suc n"
    by blast
  have lrow: "\<And>i. i < n \<Longrightarrow> length (rs ! i) = Suc n" using lrow' by blast
  define d where "d = sqrt a"
  define u where "u = map (\<lambda>v. v / d) b"
  define S where "S = schur (map tl rs) u"
  from Suc.prems(3) obtain U' where a: "0 < a" and pS: "potrf S = Inr U'"
    unfolding C S_def u_def d_def by (rule potrf_Inr_cases)
  have d: "d \<noteq> 0" "d * d = a" using a by (simp_all add: d_def)
  have lu: "length u = n" by (simp add: u_def lb)
  have Smat: "is_mat n n S" unfolding S_def using lrs lu lrow by (rule schur_is_mat)
  have Snth: "S ! i ! j = C ! Suc i ! Suc j - u ! i * u ! j" if "i < n" "j < n" for i j
    unfolding S_def using schur_nth[OF lrs lu lrow that] by (simp add: C)
  have sym: "C ! i ! j = C ! j ! i" if "i < Suc n" "j < Suc n" for i j
    using Suc.prems(2) that by blast
  have Ssym: "\<forall>i<n. \<forall>j<n. S ! i ! j = S ! j ! i"
    using Snth sym by (simp add: mult.commute)
  from Suc.prems(4) obtain x0 x' where x: "x = x0 # x'" and lx': "length x' = n"
    by (auto simp: length_Suc_conv)
  have row: "C ! 0 ! Suc j = d * (u ! j)" if "j < n" for j
    using that d lb by (simp add: C u_def)
  have col: "C ! Suc i ! 0 = d * (u ! i)" if "i < n" for i
    using sym[of "Suc i" 0] row[OF that] that by simp
  have "(\<Sum>i<Suc n. \<Sum>j<Suc n. x ! i * C ! i ! j * x ! j) =
        (C ! 0 ! 0 - d * d) * x ! 0 * x ! 0 + (d * x ! 0 + (\<Sum>i<n. u ! i * x ! Suc i)) ^ 2 +
        (\<Sum>i<n. \<Sum>j<n. x ! Suc i * (C ! Suc i ! Suc j - u ! i * u ! j) * x ! Suc j)"
    using d(1) row col by (rule qf_step[of d n "\<lambda>i j. C ! i ! j" "\<lambda>i. u ! i" "\<lambda>i. x ! i"])
  also have "(C ! 0 ! 0 - d * d) * x ! 0 * x ! 0 = 0" using d(2) by (simp add: C)
  also have "(\<Sum>i<n. \<Sum>j<n. x ! Suc i * (C ! Suc i ! Suc j - u ! i * u ! j) * x ! Suc j) =
             (\<Sum>i<n. \<Sum>j<n. x' ! i * S ! i ! j * x' ! j)"
    by (intro sum.cong refl) (simp add: Snth x)
  finally have eq: "(\<Sum>i<Suc n. \<Sum>j<Suc n. x ! i * C ! i ! j * x ! j) =
      (d * x0 + (\<Sum>i<n. u ! i * x' ! i)) ^ 2 + (\<Sum>i<n. \<Sum>j<n. x' ! i * S ! i ! j * x' ! j)"
    by (simp add: x)
  show ?case
  proof (cases "\<exists>i<n. x' ! i \<noteq> 0")
    case True
    from Suc.IH[OF Smat Ssym pS lx' True]
    have "0 < (\<Sum>i<n. \<Sum>j<n. x' ! i * S ! i ! j * x' ! j)" .
    moreover have "0 \<le> (d * x0 + (\<Sum>i<n. u ! i * x' ! i)) ^ 2" by simp
    ultimately show ?thesis unfolding eq by linarith
  next
    case False
    then have z: "\<And>i. i < n \<Longrightarrow> x' ! i = 0" by blast
    with Suc.prems(5) have x0: "x0 \<noteq> 0"
      by (auto simp: x less_Suc_eq_0_disj)
    have "(\<Sum>i<n. u ! i * x' ! i) = 0" using z by simp
    moreover have "(\<Sum>i<n. \<Sum>j<n. x' ! i * S ! i ! j * x' ! j) = 0" using z by simp
    ultimately have "(\<Sum>i<Suc n. \<Sum>j<Suc n. x ! i * C ! i ! j * x ! j) = (d * x0) ^ 2"
      unfolding eq by simp
    moreover have "0 < (d * x0) ^ 2" using d(1) x0 by simp
    ultimately show ?thesis by simp
  qed
qed

lemma potrf_error:
  "is_mat n n C \<Longrightarrow> potrf C = Inl e \<Longrightarrow> e = LinAlgError"
proof (induction n arbitrary: C)
  case 0
  then show ?case by (simp add: is_mat_def)
next
  case (Suc n)
  from is_mat_Suc[OF Suc.prems(1)] obtain a b rs where
    C: "C = (a # b) # rs" and lb: "length b = n" and lrs: "length rs = n" and
    lrow': "\<forall>i<n. length (rs ! i) = Suc n"
    by blast
  have lrow: "\<And>i. i < n \<Longrightarrow> length (rs ! i) = Suc n" using lrow' by blast
  show ?case
  proof (cases "a \<le> 0")
    case True
    with Suc.prems(2) show ?thesis by (simp add: C)
  next
    case False
    define u where "u = map (\<lambda>v. v / sqrt a) b"
    have lu: "length u = n" by (simp add: u_def lb)
    have Smat: "is_mat n n (schur (map tl rs) u)" using lrs lu lrow by (rule schur_is_mat)
    from Suc.prems(2) False have "potrf (schur (map tl rs) u) = Inl e"
      by (auto simp: C u_def Let_def split: sum.splits)
    from Suc.IH[OF Smat this] show ?thesis .
  qed
qed

text \<open>
  The factor that \<open>potrf\<close> returns for a symmetric matrix is the Cholesky factor of the
  library's contract: upper triangular, with a positive diagonal, and \<open>U\<^sup>T U = C\<close>.
\<close>

lemma potrf_factor:
  "is_mat n n C \<Longrightarrow> (\<forall>i<n. \<forall>j<n. C ! i ! j = C ! j ! i) \<Longrightarrow> potrf C = Inr U \<Longrightarrow>
   is_mat n n U \<and> (\<forall>i<n. 0 < U ! i ! i) \<and> (\<forall>i<n. \<forall>j<i. U ! i ! j = 0) \<and>
   (\<forall>i<n. \<forall>j<n. (\<Sum>k<n. U ! k ! i * U ! k ! j) = C ! i ! j)"
proof (induction n arbitrary: C U)
  case 0
  then show ?case by (simp add: is_mat_def)
next
  case (Suc n)
  from is_mat_Suc[OF Suc.prems(1)] obtain a b rs where
    C: "C = (a # b) # rs" and lb: "length b = n" and lrs: "length rs = n" and
    lrow': "\<forall>i<n. length (rs ! i) = Suc n"
    by blast
  have lrow: "\<And>i. i < n \<Longrightarrow> length (rs ! i) = Suc n" using lrow' by blast
  define d where "d = sqrt a"
  define u where "u = map (\<lambda>v. v / d) b"
  define S where "S = schur (map tl rs) u"
  from Suc.prems(3) obtain U' where a: "0 < a" and pS: "potrf S = Inr U'"
    and U: "U = (d # u) # map (\<lambda>row. 0 # row) U'"
    unfolding C S_def u_def d_def by (rule potrf_Inr_cases)
  have d: "0 < d" "d * d = a" using a by (simp_all add: d_def)
  have lu: "length u = n" by (simp add: u_def lb)
  have Smat: "is_mat n n S" unfolding S_def using lrs lu lrow by (rule schur_is_mat)
  have Snth: "S ! i ! j = C ! Suc i ! Suc j - u ! i * u ! j" if "i < n" "j < n" for i j
    unfolding S_def using schur_nth[OF lrs lu lrow that] by (simp add: C)
  have sym: "C ! i ! j = C ! j ! i" if "i < Suc n" "j < Suc n" for i j
    using Suc.prems(2) that by blast
  have Ssym: "\<forall>i<n. \<forall>j<n. S ! i ! j = S ! j ! i"
    using Snth sym by (simp add: mult.commute)
  from Suc.IH[OF Smat Ssym pS] have
    U'mat: "is_mat n n U'" and
    U'pos: "\<And>i. i < n \<Longrightarrow> 0 < U' ! i ! i" and
    U'tri: "\<And>i j. i < n \<Longrightarrow> j < i \<Longrightarrow> U' ! i ! j = 0" and
    U'prod: "\<And>i j. i < n \<Longrightarrow> j < n \<Longrightarrow> (\<Sum>k<n. U' ! k ! i * U' ! k ! j) = S ! i ! j"
    by auto
  have lU': "length U' = n" using U'mat by (simp add: is_mat_def)
  have U0: "U ! 0 = d # u" by (simp add: U)
  have US: "U ! Suc k = 0 # U' ! k" if "k < n" for k using that lU' by (simp add: U)
  have row: "C ! 0 ! Suc j = d * (u ! j)" if "j < n" for j
    using that d lb by (simp add: C u_def)
  have m: "is_mat (Suc n) (Suc n) U"
    using U'mat lu by (simp add: U is_mat_def list_all_iff)
  have pos: "\<forall>i<Suc n. 0 < U ! i ! i"
  proof (intro allI impI)
    fix i assume "i < Suc n"
    then show "0 < U ! i ! i"
      using d(1) U'pos by (cases i) (simp_all add: U0 US)
  qed
  have tri: "\<forall>i<Suc n. \<forall>j<i. U ! i ! j = 0"
  proof (intro allI impI)
    fix i j assume "i < Suc n" "j < i"
    then show "U ! i ! j = 0"
      using U'tri by (cases i; cases j) (simp_all add: US)
  qed
  have split: "(\<Sum>k<Suc n. U ! k ! i * U ! k ! j) =
               (d # u) ! i * (d # u) ! j + (\<Sum>k<n. (0 # U' ! k) ! i * (0 # U' ! k) ! j)" for i j
  proof -
    have "(\<Sum>k<Suc n. U ! k ! i * U ! k ! j) =
          U ! 0 ! i * U ! 0 ! j + (\<Sum>k<n. U ! Suc k ! i * U ! Suc k ! j)"
      by (simp only: sum.lessThan_Suc_shift)
    also have "(\<Sum>k<n. U ! Suc k ! i * U ! Suc k ! j) =
               (\<Sum>k<n. (0 # U' ! k) ! i * (0 # U' ! k) ! j)"
      by (intro sum.cong refl) (simp add: US)
    finally show ?thesis by (simp only: U0)
  qed
  have prod: "\<forall>i<Suc n. \<forall>j<Suc n. (\<Sum>k<Suc n. U ! k ! i * U ! k ! j) = C ! i ! j"
  proof (intro allI impI)
    fix i j assume i: "i < Suc n" and j: "j < Suc n"
    show "(\<Sum>k<Suc n. U ! k ! i * U ! k ! j) = C ! i ! j"
    proof (cases i)
      case 0
      show ?thesis
      proof (cases j)
        case 0
        with \<open>i = 0\<close> show ?thesis unfolding split using d(2) by (simp add: C)
      next
        case (Suc j')
        with j have "j' < n" by simp
        from row[OF this] show ?thesis unfolding split using \<open>i = 0\<close> Suc by simp
      qed
    next
      case (Suc i')
      with i have i': "i' < n" by simp
      show ?thesis
      proof (cases j)
        case 0
        have "C ! Suc i' ! 0 = d * u ! i'" using sym[of "Suc i'" 0] row[OF i'] i' by simp
        then show ?thesis unfolding split using \<open>i = Suc i'\<close> 0 by simp
      next
        case (Suc j')
        with j have j': "j' < n" by simp
        have "(\<Sum>k<Suc n. U ! k ! i * U ! k ! j) =
              u ! i' * u ! j' + (\<Sum>k<n. U' ! k ! i' * U' ! k ! j')"
          unfolding split using \<open>i = Suc i'\<close> Suc by simp
        also have "\<dots> = u ! i' * u ! j' + S ! i' ! j'" using U'prod[OF i' j'] by simp
        also have "\<dots> = C ! i ! j" using Snth[OF i' j'] \<open>i = Suc i'\<close> Suc by simp
        finally show ?thesis .
      qed
    qed
  qed
  from m pos tri prod show ?case by blast
qed

lemma symmetric_entries:
  assumes "symmetric C"
  shows "is_mat (length C) (length C) C"
    and "\<forall>i<length C. \<forall>j<length C. C ! i ! j = C ! j ! i"
  using assms by (auto simp: symmetric_def list_all_iff)

lemma potrf_positive_definite:
  assumes "symmetric C" and "potrf C = Inr U"
  shows "positive_definite C"
  unfolding positive_definite_def
proof (intro allI impI)
  fix x :: "real list"
  assume x: "length x = length C \<and> x \<noteq> replicate (length C) 0"
  have "\<exists>i<length C. x ! i \<noteq> 0"
  proof (rule ccontr)
    assume "\<not> (\<exists>i<length C. x ! i \<noteq> 0)"
    then have "x = replicate (length C) 0" using x by (intro nth_equalityI) auto
    with x show False by simp
  qed
  with potrf_positive[OF symmetric_entries[OF assms(1)] assms(2)] x
  have "0 < (\<Sum>i<length C. \<Sum>j<length C. x ! i * C ! i ! j * x ! j)" by blast
  then show "0 < quad_form C x"
    using quad_form_nth[OF symmetric_entries(1)[OF assms(1)], of x] x by simp
qed

lemma not_positive_definite_example: "\<not> positive_definite [[1, 2], [2, 1]]"
proof
  assume "positive_definite [[1, 2], [2, 1]]"
  then have "0 < quad_form [[1, 2], [2, 1]] [1, - 1]"
    unfolding positive_definite_def by (auto simp: numeral_2_eq_2)
  then show False by (simp add: quad_form_def mat_vec_def dot_def)
qed

lemma symmetric_example: "symmetric [[1, 2], [2, 1]]"
  by (simp add: symmetric_def is_mat_def upt_rec numeral_2_eq_2)

text \<open>
  Claim C6. For a symmetric covariance matrix that is not positive definite,
  \<open>get_lnL d C\<close> raises the "not positive definite" error of the Cholesky
  factorisation, LinAlgError, and returns nothing, whatever the data vector is.
\<close>

theorem get_lnL_not_positive_definite:
  assumes "symmetric C" and "\<not> positive_definite C"
  shows "get_lnL d C = Inl LinAlgError"
proof -
  have mat: "is_mat (length C) (length C) C" using assms(1) by (rule symmetric_entries)
  then have ch: "cholesky C = potrf C" by (simp add: cholesky_def)
  show ?thesis
  proof (cases "potrf C")
    case (Inl e)
    with potrf_error[OF mat] have "potrf C = Inl LinAlgError" by simp
    then show ?thesis by (simp add: get_lnL_def ch)
  next
    case (Inr U)
    with assms show ?thesis using potrf_positive_definite by blast
  qed
qed

theorem get_lnL_not_positive_definite_witness:
  "symmetric [[1, 2], [2, 1]] \<and> \<not> positive_definite [[1, 2], [2, 1]] \<and>
   get_lnL [1, 2] [[1, 2], [2, 1]] = Inl LinAlgError"
  using get_lnL_not_positive_definite[OF symmetric_example not_positive_definite_example, of "[1, 2]"]
    symmetric_example not_positive_definite_example
  by simp

lemma positive_definite_example: "positive_definite [[1, 1], [1, 2]]"
  unfolding positive_definite_def
proof (intro allI impI)
  fix x :: "real list"
  assume x: "length x = length [[1, 1], [1, 2 :: real]] \<and>
             x \<noteq> replicate (length [[1, 1], [1, 2 :: real]]) 0"
  then obtain p q where pq: "x = [p, q]" by (auto simp: length_Suc_conv)
  with x have nz: "p \<noteq> 0 \<or> q \<noteq> 0" by (auto simp: numeral_2_eq_2)
  have "quad_form [[1, 1], [1, 2]] x = (p + q) ^ 2 + q ^ 2"
    by (simp add: pq quad_form_def mat_vec_def dot_def power2_eq_square algebra_simps)
  moreover have "0 < (p + q) ^ 2 + q ^ 2"
  proof (cases "q = 0")
    case True
    with nz have "0 < (p + q) ^ 2" by simp
    then show ?thesis using True by simp
  next
    case False
    then have "0 < q ^ 2" by simp
    moreover have "0 \<le> (p + q) ^ 2" by simp
    ultimately show ?thesis by linarith
  qed
  ultimately show "0 < quad_form [[1, 1], [1, 2]] x" by simp
qed

lemma get_lnL_example_1: "get_lnL [0] [[4]] = Inr (ln 2)"
  by (simp add: get_lnL_def cholesky_def is_mat_def schur_def diagonal_def
      solve_triangular_def dot_def)

lemma get_lnL_example_2: "get_lnL [0, 1] [[1, 1], [1, 2]] = Inr 2"
  by (simp add: get_lnL_def cholesky_def is_mat_def schur_def diagonal_def
      solve_triangular_def dot_def)

lemma ln_4: "ln (4::real) = 2 * ln 2"
proof -
  have "ln (4::real) = ln (2 * 2)" by simp
  also have "\<dots> = ln 2 + ln 2" by (rule ln_mult_pos) simp_all
  finally show ?thesis by simp
qed

text \<open>
  Claim C1. \<open>get_lnL d C\<close> is claimed to be \<open>d\<^sup>T C\<^sup>-\<^sup>1 d + ln (det C)\<close>. The code sums
  the logarithms of the diagonal of the Cholesky factor once, so it adds half of
  \<open>ln (det C)\<close>: for \<open>C = [[4]]\<close> and \<open>d = [0]\<close> it returns \<open>ln 2\<close>, not \<open>ln 4\<close>. It also
  solves \<open>U x = d\<close> with the upper triangular factor \<open>U\<close> where the quadratic form needs
  \<open>U\<^sup>T x = d\<close>: for \<open>C = [[1, 1], [1, 2]]\<close>, of determinant 1, and \<open>d = [0, 1]\<close> it
  returns 2, while \<open>C\<^sup>-\<^sup>1 d = [-1, 1]\<close> and \<open>d\<^sup>T C\<^sup>-\<^sup>1 d + ln (det C) = 1\<close>.
\<close>

theorem get_lnL_not_gaussian:
  "get_lnL [0] [[4]] = Inr (ln 2) \<and>
   mat_vec [[4]] [0] = [0] \<and> dot [0] [0] + ln 4 = 2 * ln 2 \<and> ln 2 \<noteq> 2 * ln (2::real) \<and>
   get_lnL [0, 1] [[1, 1], [1, 2]] = Inr 2 \<and>
   mat_vec [[1, 1], [1, 2]] [- 1, 1] = [0, 1] \<and>
   dot [0, 1] [- 1, 1] + ln (1 * 2 - 1 * 1) = 1"
  by (simp add: get_lnL_example_1 get_lnL_example_2 mat_vec_def dot_def ln_4)

subsection \<open>Diagonal covariances\<close>

lemma diag_Cons:
  "diag (a # v) = (a # replicate (length v) 0) # map (\<lambda>row. 0 # row) (diag v)"
proof -
  have up: "[0..<Suc (length v)] = 0 # map Suc [0..<length v]"
    by (simp add: upt_conv_Cons map_Suc_upt del: upt_Suc)
  have r0: "map (\<lambda>j. if 0 = j then (a # v) ! 0 else 0) [0..<Suc (length v)] =
            a # replicate (length v) 0"
    unfolding up by (simp add: comp_def map_replicate_const)
  have rs: "map (\<lambda>i. map (\<lambda>j. if i = j then (a # v) ! i else 0) [0..<Suc (length v)])
              (map Suc [0..<length v]) = map (\<lambda>row. 0 # row) (diag v)"
    unfolding up by (simp add: diag_def comp_def)
  have "diag (a # v) =
        map (\<lambda>i. map (\<lambda>j. if i = j then (a # v) ! i else 0) [0..<Suc (length v)])
          (0 # map Suc [0..<length v])"
    unfolding diag_def using up by simp
  then show ?thesis using r0 rs by simp
qed

lemma diag_is_mat: "is_mat (length v) (length v) (diag v)"
  by (simp add: is_mat_def diag_def list_all_iff)

lemma diag_length: "length (diag v) = length v"
  by (simp add: diag_def)

lemma diagonal_diag: "diagonal (diag v) = v"
  by (auto simp: diagonal_def diag_def intro!: nth_equalityI)

lemma schur_zero:
  assumes "is_mat n n B"
  shows "schur B (replicate n 0) = B"
proof -
  from assms have len: "length B = n" and rows: "\<And>i. i < n \<Longrightarrow> length (B ! i) = n"
    by (auto simp: is_mat_def list_all_iff)
  show ?thesis
    using len rows by (auto simp: schur_def intro!: nth_equalityI)
qed

lemma potrf_diag:
  "\<forall>a\<in>set v. 0 < a \<Longrightarrow> potrf (diag v) = Inr (diag (map sqrt v))"
proof (induction v)
  case Nil
  show ?case by (simp add: diag_def)
next
  case (Cons a v)
  have tl: "map (tl \<circ> (#) 0) (diag v) = diag v"
    by (simp add: comp_def)
  have "potrf (diag (a # v)) =
        (case potrf (diag v) of Inl e \<Rightarrow> Inl e
         | Inr U \<Rightarrow> Inr ((sqrt a # replicate (length v) 0) # map (\<lambda>row. 0 # row) U))"
    using Cons.prems
    by (simp add: diag_Cons Let_def tl schur_zero[OF diag_is_mat])
  also have "\<dots> = Inr ((sqrt a # replicate (length v) 0) #
                       map (\<lambda>row. 0 # row) (diag (map sqrt v)))"
    using Cons by simp
  also have "\<dots> = Inr (diag (map sqrt (a # v)))"
    using diag_Cons[of "sqrt a" "map sqrt v"] by simp
  finally show ?case .
qed

lemma dot_zero_left: "dot (replicate n 0) x = 0"
proof (induction n arbitrary: x)
  case 0
  show ?case by (simp add: dot_def)
next
  case (Suc n)
  show ?case
  proof (cases x)
    case Nil
    then show ?thesis by (simp add: dot_def)
  next
    case (Cons y ys)
    with Suc[of ys] show ?thesis by (simp add: dot_def)
  qed
qed

lemma back_subst_diag:
  "length d = length w \<Longrightarrow> back_subst (diag w) d = map2 (/) d w"
proof (induction w arbitrary: d)
  case Nil
  then show ?case by (simp add: diag_def)
next
  case (Cons a w)
  then obtain b bs where d: "d = b # bs" "length bs = length w"
    by (cases d) auto
  have tl: "map (tl \<circ> (#) 0) (diag w) = diag w"
    by (simp add: comp_def)
  show ?case
    using Cons.IH[OF d(2)] by (simp add: d diag_Cons tl Let_def dot_zero_left)
qed

lemma sum_ln_sqrt:
  "\<forall>a\<in>set v. 0 < a \<Longrightarrow> sum_list (map ln (map sqrt v)) = sum_list (map ln v) / 2"
  by (induction v) (simp_all add: ln_sqrt add_divide_distrib)

lemma dot_quotients:
  "length d = length v \<Longrightarrow> \<forall>a\<in>set v. 0 < a \<Longrightarrow>
   dot (map2 (/) d (map sqrt v)) (map2 (/) d (map sqrt v)) =
   sum_list (map2 (\<lambda>di vi. di ^ 2 / vi) d v)"
proof (induction d v rule: list_induct2)
  case Nil
  show ?case by (simp add: dot_def)
next
  case (Cons di d vi v)
  from Cons.prems have "0 < vi" by simp
  then have "di / sqrt vi * (di / sqrt vi) = di ^ 2 / vi"
    by (simp add: power2_eq_square)
  with Cons show ?case by (simp add: dot_def)
qed

text \<open>
  What the code computes on a diagonal covariance: the quadratic form plus half of the
  logarithm of the determinant.
\<close>

lemma get_lnL_diag:
  assumes "length d = length v" and "\<forall>a\<in>set v. 0 < a"
  shows "get_lnL d (diag v) =
         Inr (sum_list (map2 (\<lambda>di vi. di ^ 2 / vi) d v) + sum_list (map ln v) / 2)"
proof -
  let ?w = "map sqrt v"
  have ch: "cholesky (diag v) = Inr (diag ?w)"
    using diag_is_mat[of v] potrf_diag[OF assms(2)] by (simp add: cholesky_def diag_length)
  have nz: "0 \<notin> set ?w" using assms(2) by auto
  have st: "solve_triangular (diag ?w) d = Inr (map2 (/) d ?w)"
    using diag_is_mat[of ?w] nz assms(1)
    by (simp add: solve_triangular_def diag_length diagonal_diag back_subst_diag)
  have "get_lnL d (diag v) =
        Inr (dot (map2 (/) d ?w) (map2 (/) d ?w) + sum_list (map ln ?w))"
    unfolding get_lnL_def by (simp only: ch st diagonal_diag sum.case Let_def)
  then show ?thesis
    by (simp only: sum_ln_sqrt[OF assms(2)] dot_quotients[OF assms])
qed

lemma get_lnL_example_3: "get_lnL [1, 2] (diag [1, 4]) = Inr (2 + ln 2)"
  by (simp add: get_lnL_def cholesky_def is_mat_def schur_def diagonal_def
      solve_triangular_def dot_def diag_def)

text \<open>
  Claim C3. For a diagonal covariance \<open>diag v\<close> with positive entries, \<open>get_lnL d (diag v)\<close>
  is claimed to be the sum of \<open>d[i]^2 / v[i]\<close> plus the sum of \<open>ln v[i]\<close>. The code adds
  the logarithms of the roots of the \<open>v[i]\<close>, half of the second sum: for \<open>d = [1, 2]\<close>
  and \<open>v = [1, 4]\<close> it returns \<open>2 + ln 2\<close>, the closed form is \<open>2 + 2 ln 2\<close>.
\<close>

theorem get_lnL_diag_differs:
  "get_lnL [1, 2] (diag [1, 4]) = Inr (2 + ln 2) \<and>
   lnL_diag_spec [1, 2] [1, 4] = 2 + 2 * ln 2 \<and>
   get_lnL [1, 2] (diag [1, 4]) \<noteq> Inr (lnL_diag_spec [1, 2] [1, 4])"
proof -
  have s: "lnL_diag_spec [1, 2] [1, 4] = 2 + 2 * ln 2"
    by (simp add: lnL_diag_spec_def ln_4)
  have "ln (2::real) \<noteq> 0" by simp
  then show ?thesis unfolding get_lnL_example_3 s by simp
qed

end
